theory Spec2Isabelle
  imports Main "HOL-Library.Word" "HOL-Library.AList"
begin

unbundle bit_operations_syntax

section \<open>Machine types\<close>

type_synonym u8 = "8 word"
type_synonym u16 = "16 word"
type_synonym u32 = "32 word"
type_synonym u64 = "64 word"

section \<open>Metric identifiers\<close>

text \<open>
  \<^verbatim>\<open>libcorsaro3/plugins/corsaro_report.c\<close>, the metric classes of the report plugin
  (a C enum, numbered from 0 in declaration order).
\<close>

datatype corsaro_report_metric_class_t =
    CORSARO_METRIC_CLASS_COMBINED
  | CORSARO_METRIC_CLASS_MAXMIND_CONTINENT
  | CORSARO_METRIC_CLASS_MAXMIND_COUNTRY
  | CORSARO_METRIC_CLASS_NETACQ_CONTINENT
  | CORSARO_METRIC_CLASS_NETACQ_COUNTRY
  | CORSARO_METRIC_CLASS_PREFIX_ASN
  | CORSARO_METRIC_CLASS_TCP_SOURCE_PORT
  | CORSARO_METRIC_CLASS_TCP_DEST_PORT
  | CORSARO_METRIC_CLASS_UDP_SOURCE_PORT
  | CORSARO_METRIC_CLASS_UDP_DEST_PORT
  | CORSARO_METRIC_CLASS_IP_PROTOCOL
  | CORSARO_METRIC_CLASS_ICMP_CODE
  | CORSARO_METRIC_CLASS_ICMP_TYPE

fun class_num :: "corsaro_report_metric_class_t \<Rightarrow> u32" where
  "class_num CORSARO_METRIC_CLASS_COMBINED = 0"
| "class_num CORSARO_METRIC_CLASS_MAXMIND_CONTINENT = 1"
| "class_num CORSARO_METRIC_CLASS_MAXMIND_COUNTRY = 2"
| "class_num CORSARO_METRIC_CLASS_NETACQ_CONTINENT = 3"
| "class_num CORSARO_METRIC_CLASS_NETACQ_COUNTRY = 4"
| "class_num CORSARO_METRIC_CLASS_PREFIX_ASN = 5"
| "class_num CORSARO_METRIC_CLASS_TCP_SOURCE_PORT = 6"
| "class_num CORSARO_METRIC_CLASS_TCP_DEST_PORT = 7"
| "class_num CORSARO_METRIC_CLASS_UDP_SOURCE_PORT = 8"
| "class_num CORSARO_METRIC_CLASS_UDP_DEST_PORT = 9"
| "class_num CORSARO_METRIC_CLASS_IP_PROTOCOL = 10"
| "class_num CORSARO_METRIC_CLASS_ICMP_CODE = 11"
| "class_num CORSARO_METRIC_CLASS_ICMP_TYPE = 12"

text \<open>
  \<^verbatim>\<open>libcorsaro3/plugins/corsaro_report.c\<close>:
  \<^verbatim>\<open>#define GEN_METRICID(class, val) ((((uint64_t) class) << 32) + ((uint64_t)val))\<close>.
  Both arguments are 32-bit values at the only call site (\<^verbatim>\<open>process_single_tag\<close>) and are
  widened by the casts.
\<close>

definition GEN_METRICID3 :: "u32 \<Rightarrow> u32 \<Rightarrow> u64" where
  "GEN_METRICID3 class val = push_bit 32 (ucast class :: u64) + (ucast val :: u64)"

text \<open>
  \<^verbatim>\<open>libcorsaro/plugins/report/report_internal.h\<close>:
  \<^verbatim>\<open>#define GEN_METRICID(class, val) ((((uint64_t) class) << 32) + ((uint64_t)val) & 0xFFFFFFFF)\<close>.
  In C the binary \<^verbatim>\<open>+\<close> binds tighter than \<^verbatim>\<open>&\<close>, so the mask is applied to the sum.
  The arguments are taken after their casts to \<^verbatim>\<open>uint64_t\<close>.
\<close>

definition GEN_METRICID :: "u64 \<Rightarrow> u64 \<Rightarrow> u64" where
  "GEN_METRICID class val = (push_bit 32 class + val) AND 0xFFFFFFFF"

section \<open>IP tracker state (\<^verbatim>\<open>libcorsaro3/plugins/corsaro_report.c\<close>)\<close>

text \<open>\<^verbatim>\<open>corsaro_standalone_metric_t\<close>: one slot of the inline per-IP metric array.\<close>

record corsaro_standalone_metric_t =
  sm_metricid :: u64
  metval :: u8

definition METRIC_ARRAY_SIZE :: nat where
  "METRIC_ARRAY_SIZE = 20"

text \<open>
  \<^verbatim>\<open>corsaro_ip_hash_t\<close>. \<open>firstmetrics\<close> is the C array of \<^verbatim>\<open>METRIC_ARRAY_SIZE\<close>
  slots, \<open>metricsseen\<close> the khash map from metric ID to the seen-bitmask.
\<close>

record corsaro_ip_hash_t =
  ipaddr :: u32
  firstmetrics :: "corsaro_standalone_metric_t list"
  metriccount :: u32
  metricsseen :: "u64 \<rightharpoonup> u8"

text \<open>\<^verbatim>\<open>corsaro_metric_ip_hash_t\<close>: the tally kept for one metric.\<close>

record corsaro_metric_ip_hash_t =
  metricid :: u64
  srcips :: u32
  destips :: u32
  packets :: u32
  bytes :: u64

text \<open>
  \<^verbatim>\<open>kh_tally_t\<close>: the khash map from metric ID to tally. It is kept as an association
  list because the merge thread iterates over its entries.
\<close>

type_synonym kh_tally_t = "(u64 \<times> corsaro_metric_ip_hash_t) list"

text \<open>\<^verbatim>\<open>corsaro_report_out_interval_t\<close>; \<open>reports_recvd\<close> is the 256-entry flag array.\<close>

record corsaro_report_out_interval_t =
  interval_ts :: u32
  reports_recvd :: "u8 \<Rightarrow> u8"
  reports_total :: u8

text \<open>
  \<^verbatim>\<open>corsaro_report_msg_body_t\<close>. The list \<open>tags\<close> holds the first \<^verbatim>\<open>numtags\<close>
  entries of the C array, so \<^verbatim>\<open>numtags\<close> is its length.
\<close>

record corsaro_report_msg_body_t =
  body_ipaddr :: u32
  issrc :: u8
  tags :: "u64 list"
  body_size :: u16

text \<open>
  \<^verbatim>\<open>corsaro_report_ip_message_t\<close>. The list \<open>update\<close> holds the first
  \<^verbatim>\<open>bodycount\<close> entries of the update array.
\<close>

record corsaro_report_ip_message_t =
  msgtype :: u8
  sender :: u8
  timestamp :: u32
  update :: "corsaro_report_msg_body_t list"

definition CORSARO_IP_MESSAGE_HALT :: u8 where
  "CORSARO_IP_MESSAGE_HALT = 0"

definition CORSARO_IP_MESSAGE_INTERVAL :: u8 where
  "CORSARO_IP_MESSAGE_INTERVAL = 1"

text \<open>\<^verbatim>\<open>corsaro_report_iptracker_t\<close>; \<open>lastresult = None\<close> is the C \<^verbatim>\<open>NULL\<close>.\<close>

record corsaro_report_iptracker_t =
  lastresultts :: u32
  sourcethreads :: u8
  haltphase :: u8
  knownips :: "u32 \<rightharpoonup> corsaro_ip_hash_t"
  knownips_next :: "u32 \<rightharpoonup> corsaro_ip_hash_t"
  lastresult :: "kh_tally_t option"
  currentresult :: kh_tally_t
  nextresult :: kh_tally_t
  outstanding :: "corsaro_report_out_interval_t list"

subsection \<open>Per-IP metric bookkeeping\<close>

text \<open>
  \<^verbatim>\<open>update_iphash\<close>: find the entry of an address, creating a zeroed one when absent.
  Returns the map and the entry found.
\<close>

definition update_iphash ::
  "(u32 \<rightharpoonup> corsaro_ip_hash_t) \<Rightarrow> u32 \<Rightarrow> (u32 \<rightharpoonup> corsaro_ip_hash_t) \<times> corsaro_ip_hash_t" where
  "update_iphash kn ip =
     (case kn ip of
        Some iphash \<Rightarrow> (kn, iphash)
      | None \<Rightarrow>
          (let iphash = \<lparr>ipaddr = ip,
                         firstmetrics = replicate METRIC_ARRAY_SIZE \<lparr>sm_metricid = 0, metval = 0\<rparr>,
                         metriccount = 0,
                         metricsseen = Map.empty\<rparr>
           in (kn(ip \<mapsto> iphash), iphash)))"

text \<open>
  \<^verbatim>\<open>update_metric_map\<close>. \<^verbatim>\<open>kh_put\<close> reports a fresh key with \<^verbatim>\<open>khret == 1\<close>; the
  value is then zeroed and the metric counted. The tally \<open>m\<close> is returned updated.
\<close>

definition update_metric_map ::
  "corsaro_ip_hash_t \<Rightarrow> u64 \<Rightarrow> u8 \<Rightarrow> corsaro_metric_ip_hash_t
     \<Rightarrow> corsaro_ip_hash_t \<times> corsaro_metric_ip_hash_t" where
  "update_metric_map iphash mid src m =
     (let iphash1 = (case metricsseen iphash mid of
                       None \<Rightarrow> iphash\<lparr>metricsseen := (metricsseen iphash)(mid \<mapsto> 0),
                                      metriccount := metriccount iphash + 1\<rparr>
                     | Some _ \<Rightarrow> iphash);
          mv = (case metricsseen iphash1 mid of Some v \<Rightarrow> v | None \<Rightarrow> 0)
      in if src \<noteq> 0 \<and> mv AND 0x01 = 0 then
           (iphash1\<lparr>metricsseen := (metricsseen iphash1)(mid \<mapsto> mv OR 0x01)\<rparr>,
            m\<lparr>srcips := srcips m + 1\<rparr>)
         else if src = 0 \<and> mv AND 0x02 = 0 then
           (iphash1\<lparr>metricsseen := (metricsseen iphash1)(mid \<mapsto> mv OR 0x02)\<rparr>,
            m\<lparr>destips := destips m + 1\<rparr>)
         else (iphash1, m))"

text \<open>The search loop of \<^verbatim>\<open>update_metric_array\<close>: index of the first slot holding the metric.\<close>

fun find_metric :: "corsaro_standalone_metric_t list \<Rightarrow> u64 \<Rightarrow> nat option" where
  "find_metric [] mid = None"
| "find_metric (e # es) mid =
     (if sm_metricid e = mid then Some 0 else map_option Suc (find_metric es mid))"

text \<open>The closing \<^verbatim>\<open>if\<close>/\<^verbatim>\<open>else if\<close> of \<^verbatim>\<open>update_metric_array\<close> on the slot \<open>found\<close>.\<close>

definition mark_array_slot ::
  "corsaro_ip_hash_t \<Rightarrow> nat \<Rightarrow> u8 \<Rightarrow> corsaro_metric_ip_hash_t
     \<Rightarrow> corsaro_ip_hash_t \<times> corsaro_metric_ip_hash_t" where
  "mark_array_slot iphash i src m =
     (let found = firstmetrics iphash ! i
      in if src \<noteq> 0 \<and> metval found AND 0x01 = 0 then
           (iphash\<lparr>firstmetrics := (firstmetrics iphash)[i := found\<lparr>metval := metval found OR 0x01\<rparr>]\<rparr>,
            m\<lparr>srcips := srcips m + 1\<rparr>)
         else if src = 0 \<and> metval found AND 0x02 = 0 then
           (iphash\<lparr>firstmetrics := (firstmetrics iphash)[i := found\<lparr>metval := metval found OR 0x02\<rparr>]\<rparr>,
            m\<lparr>destips := destips m + 1\<rparr>)
         else (iphash, m))"

text \<open>
  \<^verbatim>\<open>update_metric_array\<close>: use the slot of the metric if there is one; when the metric
  is new and the array is full, copy every slot into the hash map and continue with
  \<^verbatim>\<open>update_metric_map\<close>; otherwise claim the next free slot.
\<close>

definition update_metric_array ::
  "corsaro_ip_hash_t \<Rightarrow> u64 \<Rightarrow> u8 \<Rightarrow> corsaro_metric_ip_hash_t
     \<Rightarrow> corsaro_ip_hash_t \<times> corsaro_metric_ip_hash_t" where
  "update_metric_array iphash mid src m =
     (let cnt = unat (metriccount iphash)
      in case find_metric (take cnt (firstmetrics iphash)) mid of
           Some i \<Rightarrow> mark_array_slot iphash i src m
         | None \<Rightarrow>
             if cnt = METRIC_ARRAY_SIZE then
               update_metric_map
                 (iphash\<lparr>metricsseen :=
                    fold (\<lambda>e ms. ms(sm_metricid e \<mapsto> metval e))
                      (take cnt (firstmetrics iphash)) (metricsseen iphash)\<rparr>)
                 mid src m
             else
               mark_array_slot
                 (iphash\<lparr>firstmetrics :=
                            (firstmetrics iphash)[cnt := \<lparr>sm_metricid = mid, metval = 0\<rparr>],
                         metriccount := metriccount iphash + 1\<rparr>)
                 cnt src m)"

text \<open>
  \<^verbatim>\<open>update_knownip_metric\<close>: look the tally of the metric up (creating a zeroed one),
  add the packet and its bytes when \<^verbatim>\<open>iplen > 0\<close>, then record the metric for the
  address in the array or in the hash map, depending on \<^verbatim>\<open>metriccount\<close>.
\<close>

definition update_knownip_metric ::
  "u64 \<Rightarrow> corsaro_ip_hash_t \<Rightarrow> u8 \<Rightarrow> u16 \<Rightarrow> kh_tally_t \<Rightarrow> corsaro_ip_hash_t \<times> kh_tally_t" where
  "update_knownip_metric mid iphash src iplen metrictally =
     (let m0 = (case map_of metrictally mid of
                  None \<Rightarrow> \<lparr>metricid = mid, srcips = 0, destips = 0, packets = 0, bytes = 0\<rparr>
                | Some m \<Rightarrow> m);
          m1 = (if iplen > 0 then m0\<lparr>packets := packets m0 + 1, bytes := bytes m0 + ucast iplen\<rparr>
                else m0);
          (iphash', m2) = (if unat (metriccount iphash) \<le> METRIC_ARRAY_SIZE
                           then update_metric_array iphash mid src m1
                           else update_metric_map iphash mid src m1)
      in (iphash', AList.update mid m2 metrictally))"

subsection \<open>Update messages\<close>

text \<open>\<^verbatim>\<open>sender_in_outstanding\<close>: has this sender ended some outstanding interval?\<close>

fun sender_in_outstanding :: "corsaro_report_out_interval_t list \<Rightarrow> u8 \<Rightarrow> bool" where
  "sender_in_outstanding [] s = False"
| "sender_in_outstanding (out # rest) s =
     (if reports_recvd out s \<noteq> 0 then True else sender_in_outstanding rest s)"

text \<open>The tag loop of \<^verbatim>\<open>process_msg_body\<close>, once the IP entry \<^verbatim>\<open>thisip\<close> is known.\<close>

fun update_tags ::
  "corsaro_ip_hash_t \<Rightarrow> kh_tally_t \<Rightarrow> u8 \<Rightarrow> u16 \<Rightarrow> u64 list \<Rightarrow> corsaro_ip_hash_t \<times> kh_tally_t" where
  "update_tags thisip tally src iplen [] = (thisip, tally)"
| "update_tags thisip tally src iplen (t # ts) =
     (case update_knownip_metric t thisip src iplen tally of
        (thisip', tally') \<Rightarrow> update_tags thisip' tally' src iplen ts)"

text \<open>
  The body of \<^verbatim>\<open>process_msg_body\<close> on the chosen pair of maps. The first tag must be
  the combined metric (ID 0): a failed \<^verbatim>\<open>assert\<close> aborts the process, which is \<open>None\<close>.
  A body without tags touches nothing.
\<close>

definition apply_msg_body ::
  "(u32 \<rightharpoonup> corsaro_ip_hash_t) \<times> kh_tally_t \<Rightarrow> corsaro_report_msg_body_t
     \<Rightarrow> ((u32 \<rightharpoonup> corsaro_ip_hash_t) \<times> kh_tally_t) option" where
  "apply_msg_body maps body =
     (case tags body of
        [] \<Rightarrow> Some maps
      | t0 # _ \<Rightarrow>
          if t0 \<noteq> 0 then None
          else (case update_iphash (fst maps) (body_ipaddr body) of
                  (kn, thisip) \<Rightarrow>
                    (case update_tags thisip (snd maps) (issrc body) (body_size body) (tags body) of
                       (thisip', tally') \<Rightarrow> Some (kn(body_ipaddr body \<mapsto> thisip'), tally'))))"

text \<open>
  \<^verbatim>\<open>process_msg_body\<close>: choose the maps of the current or of the next interval, then
  apply the body to them.
\<close>

definition use_next_maps :: "corsaro_report_iptracker_t \<Rightarrow> u8 \<Rightarrow> bool" where
  "use_next_maps track s =
     (if length (outstanding track) = 0 then False
      else if sender_in_outstanding (outstanding track) s then True
      else False)"

definition process_msg_body ::
  "corsaro_report_iptracker_t \<Rightarrow> u8 \<Rightarrow> corsaro_report_msg_body_t
     \<Rightarrow> corsaro_report_iptracker_t option" where
  "process_msg_body track s body =
     (if use_next_maps track s then
        map_option (\<lambda>(kn, tl). track\<lparr>knownips_next := kn, nextresult := tl\<rparr>)
          (apply_msg_body (knownips_next track, nextresult track) body)
      else
        map_option (\<lambda>(kn, tl). track\<lparr>knownips := kn, currentresult := tl\<rparr>)
          (apply_msg_body (knownips track, currentresult track) body))"

text \<open>The loop over the bodies of an update message in \<^verbatim>\<open>start_iptracker\<close>.\<close>

fun process_update ::
  "corsaro_report_iptracker_t \<Rightarrow> u8 \<Rightarrow> corsaro_report_msg_body_t list
     \<Rightarrow> corsaro_report_iptracker_t option" where
  "process_update track s [] = Some track"
| "process_update track s (b # bs) =
     (case process_msg_body track s b of
        None \<Rightarrow> None
      | Some track' \<Rightarrow> process_update track' s bs)"

subsection \<open>Interval ends\<close>

text \<open>The marking of a sender in an outstanding entry, as \<^verbatim>\<open>update_outstanding\<close> does it.\<close>

definition mark_report :: "corsaro_report_out_interval_t \<Rightarrow> u8 \<Rightarrow> corsaro_report_out_interval_t" where
  "mark_report out s =
     (if reports_recvd out s = 0
      then out\<lparr>reports_recvd := (reports_recvd out)(s := 1),
               reports_total := reports_total out + 1\<rparr>
      else out)"

text \<open>
  The search loop of \<^verbatim>\<open>update_outstanding\<close>. \<open>None\<close>: no entry has the timestamp.
  Otherwise the list with the sender marked, and whether the entry is now complete.
\<close>

fun scan_outstanding ::
  "corsaro_report_out_interval_t list \<Rightarrow> u32 \<Rightarrow> u8 \<Rightarrow> u8
     \<Rightarrow> (corsaro_report_out_interval_t list \<times> bool) option" where
  "scan_outstanding [] ts limit s = None"
| "scan_outstanding (out # rest) ts limit s =
     (if interval_ts out = ts then
        (let out' = mark_report out s in Some (out' # rest, reports_total out' = limit))
      else map_option (\<lambda>(l, c). (out # l, c)) (scan_outstanding rest ts limit s))"

text \<open>The pop loop: drop entries from the front up to and including the completed one.\<close>

fun pop_completed ::
  "corsaro_report_out_interval_t list \<Rightarrow> u32 \<Rightarrow> corsaro_report_out_interval_t list" where
  "pop_completed [] toret = []"
| "pop_completed (popped # rest) toret =
     (if interval_ts popped = toret then rest else pop_completed rest toret)"

text \<open>
  The tail of \<^verbatim>\<open>update_outstanding\<close>: append an entry for a new interval. The
  \<^verbatim>\<open>assert\<close> that interval ends arrive in order aborts on failure (\<open>None\<close>).
\<close>

definition push_new_interval ::
  "corsaro_report_out_interval_t list \<Rightarrow> u32 \<Rightarrow> u8
     \<Rightarrow> (corsaro_report_out_interval_t list \<times> u32) option" where
  "push_new_interval outl ts s =
     (if outl \<noteq> [] \<and> \<not> interval_ts (last outl) < ts then None
      else Some (outl @ [\<lparr>interval_ts = ts,
                          reports_recvd = (\<lambda>_. 0)(s := 1),
                          reports_total = 1\<rparr>], 0))"

text \<open>\<^verbatim>\<open>update_outstanding\<close>: the new list and the returned timestamp (0: not complete).\<close>

definition update_outstanding ::
  "corsaro_report_out_interval_t list \<Rightarrow> u32 \<Rightarrow> u8 \<Rightarrow> u8
     \<Rightarrow> (corsaro_report_out_interval_t list \<times> u32) option" where
  "update_outstanding outl ts limit s =
     (case scan_outstanding outl ts limit s of
        Some (outl', False) \<Rightarrow> Some (outl', 0)
      | Some (outl', True) \<Rightarrow>
          if ts > 0 then Some (pop_completed outl' ts, ts)
          else push_new_interval outl' ts s
      | None \<Rightarrow> push_new_interval outl ts s)"

subsection \<open>The tracker thread\<close>

text \<open>
  One iteration of the \<^verbatim>\<open>while\<close> loop of \<^verbatim>\<open>start_iptracker\<close> on a message taken from
  the queue. A failed \<^verbatim>\<open>assert\<close> is \<open>None\<close>.
\<close>

definition handle_message ::
  "corsaro_report_iptracker_t \<Rightarrow> corsaro_report_ip_message_t
     \<Rightarrow> corsaro_report_iptracker_t option" where
  "handle_message track msg =
     (if msgtype msg = CORSARO_IP_MESSAGE_HALT then
        (if length (outstanding track) = 0 then Some (track\<lparr>haltphase := 2\<rparr>)
         else Some (track\<lparr>haltphase := 1\<rparr>))
      else if msgtype msg = CORSARO_IP_MESSAGE_INTERVAL then
        (if timestamp msg = 0 then Some track
         else if timestamp msg \<le> lastresultts track then Some track
         else
           (case update_outstanding (outstanding track) (timestamp msg)
                   (sourcethreads track) (sender msg) of
              None \<Rightarrow> None
            | Some (outl, complete) \<Rightarrow>
                if complete = 0 then Some (track\<lparr>outstanding := outl\<rparr>)
                else if lastresult track \<noteq> None then None
                else Some (track\<lparr>outstanding := outl,
                                  lastresult := Some (currentresult track),
                                  lastresultts := complete,
                                  haltphase := (if haltphase track = 1 then 2 else haltphase track),
                                  knownips := knownips_next track,
                                  currentresult := nextresult track,
                                  knownips_next := Map.empty,
                                  nextresult := []\<rparr>)))
      else process_update track (sender msg) (update msg))"

text \<open>
  What the tracker thread observes: a message taken from its queue, or the merge thread
  having collected the last result (\<^verbatim>\<open>update_tracker_results\<close> ends with
  \<^verbatim>\<open>tracker->lastresult = NULL\<close>).
\<close>

datatype tracker_event =
    Message corsaro_report_ip_message_t
  | Result_collected

definition tracker_step ::
  "corsaro_report_iptracker_t \<Rightarrow> tracker_event \<Rightarrow> corsaro_report_iptracker_t option" where
  "tracker_step track ev =
     (case ev of
        Message msg \<Rightarrow> handle_message track msg
      | Result_collected \<Rightarrow> Some (track\<lparr>lastresult := None\<rparr>))"

text \<open>
  The thread loop: it runs while \<^verbatim>\<open>haltphase != 2\<close> and leaves the rest of the queue
  unread once halted.
\<close>

fun start_iptracker ::
  "corsaro_report_iptracker_t \<Rightarrow> tracker_event list \<Rightarrow> corsaro_report_iptracker_t option" where
  "start_iptracker track [] = Some track"
| "start_iptracker track (ev # evs) =
     (if haltphase track = 2 then Some track
      else (case tracker_step track ev of
              None \<Rightarrow> None
            | Some track' \<Rightarrow> start_iptracker track' evs))"

text \<open>The tracker as \<^verbatim>\<open>corsaro_report_finalise_config\<close> creates it.\<close>

definition init_iptracker :: "u8 \<Rightarrow> corsaro_report_iptracker_t" where
  "init_iptracker procthreads =
     \<lparr>lastresultts = 0, sourcethreads = procthreads, haltphase = 0,
      knownips = Map.empty, knownips_next = Map.empty,
      lastresult = None, currentresult = [], nextresult = [],
      outstanding = []\<rparr>"

subsection \<open>Notions used to state the tracker's properties\<close>

text \<open>A sequence of message bodies applied to one pair of maps, stopping at an abort.\<close>

fun apply_msg_bodies ::
  "(u32 \<rightharpoonup> corsaro_ip_hash_t) \<times> kh_tally_t \<Rightarrow> corsaro_report_msg_body_t list
     \<Rightarrow> ((u32 \<rightharpoonup> corsaro_ip_hash_t) \<times> kh_tally_t) option" where
  "apply_msg_bodies maps [] = Some maps"
| "apply_msg_bodies maps (b # bs) =
     (case apply_msg_body maps b of
        None \<Rightarrow> None
      | Some maps' \<Rightarrow> apply_msg_bodies maps' bs)"

text \<open>The event is the interval-end message of sender \<open>s\<close> for the interval \<open>T\<close>.\<close>

definition is_interval_end :: "tracker_event \<Rightarrow> u32 \<Rightarrow> u8 \<Rightarrow> bool" where
  "is_interval_end ev T s =
     (case ev of
        Message msg \<Rightarrow>
          msgtype msg = CORSARO_IP_MESSAGE_INTERVAL \<and> timestamp msg = T \<and> sender msg = s
      | Result_collected \<Rightarrow> False)"

definition interval_end_received :: "tracker_event list \<Rightarrow> u32 \<Rightarrow> u8 \<Rightarrow> bool" where
  "interval_end_received evs T s = list_ex (\<lambda>ev. is_interval_end ev T s) evs"

text \<open>
  Every interval-end message comes from a configured processing thread: the thread IDs
  are \<open>0 .. procthreads - 1\<close>.
\<close>

definition senders_configured :: "u8 \<Rightarrow> tracker_event list \<Rightarrow> bool" where
  "senders_configured n evs =
     list_all (\<lambda>ev. case ev of
                      Message msg \<Rightarrow>
                        msgtype msg \<noteq> CORSARO_IP_MESSAGE_INTERVAL \<or> sender msg < n
                    | Result_collected \<Rightarrow> True) evs"

subsection \<open>Invariants of the outstanding-interval list\<close>

text \<open>
  An outstanding entry is consistent with the events seen so far: every flagged sender is
  a configured one whose interval end for this interval was received, and the total is
  the number of flagged senders.
\<close>

definition out_inv :: "u8 \<Rightarrow> tracker_event list \<Rightarrow> corsaro_report_out_interval_t \<Rightarrow> bool" where
  "out_inv n evs out \<longleftrightarrow>
     (\<forall>s. reports_recvd out s \<noteq> 0 \<longrightarrow> s < n \<and> interval_end_received evs (interval_ts out) s)
     \<and> unat (reports_total out) = card {s. reports_recvd out s \<noteq> 0}"

definition track_inv :: "u8 \<Rightarrow> tracker_event list \<Rightarrow> corsaro_report_iptracker_t \<Rightarrow> bool" where
  "track_inv n evs track \<longleftrightarrow>
     sourcethreads track = n \<and> (\<forall>out \<in> set (outstanding track). out_inv n evs out)"

subsection \<open>Abstraction of the per-IP metric set\<close>

text \<open>
  The metric set of an address is kept in the array while \<^verbatim>\<open>metriccount\<close> is at most
  \<^verbatim>\<open>METRIC_ARRAY_SIZE\<close> and in the hash map afterwards. \<open>metric_bits\<close> reads the
  bitmask of a metric from whichever store is in use; \<open>wf_iphash\<close> is the consistency
  of an entry: array slots in use hold distinct metrics, the hash map is still empty in
  array mode, and \<^verbatim>\<open>metriccount\<close> is the number of metrics held.
  The observations of an interval are triples of address, metric and role (\<open>True\<close> for
  source); \<open>maps_inv\<close> relates a pair of maps to the observations applied to it.
\<close>

definition slot_pairs :: "corsaro_ip_hash_t \<Rightarrow> (u64 \<times> u8) list" where
  "slot_pairs ih = map (\<lambda>e. (sm_metricid e, metval e)) (take (unat (metriccount ih)) (firstmetrics ih))"

definition metric_bits :: "corsaro_ip_hash_t \<Rightarrow> u64 \<rightharpoonup> u8" where
  "metric_bits ih =
     (if unat (metriccount ih) \<le> METRIC_ARRAY_SIZE then map_of (slot_pairs ih)
      else metricsseen ih)"

definition wf_iphash :: "corsaro_ip_hash_t \<Rightarrow> bool" where
  "wf_iphash ih \<longleftrightarrow>
     (unat (metriccount ih) \<le> METRIC_ARRAY_SIZE \<longrightarrow>
        length (firstmetrics ih) = METRIC_ARRAY_SIZE
        \<and> distinct (map fst (slot_pairs ih))
        \<and> metricsseen ih = Map.empty)
     \<and> card (dom (metric_bits ih)) = unat (metriccount ih)"

definition role_bit :: "u8 \<Rightarrow> nat" where
  "role_bit src = (if src \<noteq> 0 then 0 else 1)"

definition count_role :: "u8 \<Rightarrow> corsaro_metric_ip_hash_t \<Rightarrow> corsaro_metric_ip_hash_t" where
  "count_role src m = (if src \<noteq> 0 then m\<lparr>srcips := srcips m + 1\<rparr> else m\<lparr>destips := destips m + 1\<rparr>)"

definition seen_bits :: "corsaro_ip_hash_t \<Rightarrow> u64 \<Rightarrow> u8" where
  "seen_bits ih mid = (case metric_bits ih mid of None \<Rightarrow> 0 | Some v \<Rightarrow> v)"

definition tally_of :: "kh_tally_t \<Rightarrow> u64 \<Rightarrow> corsaro_metric_ip_hash_t" where
  "tally_of tally mid =
     (case map_of tally mid of
        None \<Rightarrow> \<lparr>metricid = mid, srcips = 0, destips = 0, packets = 0, bytes = 0\<rparr>
      | Some m \<Rightarrow> m)"

definition add_packet :: "u16 \<Rightarrow> corsaro_metric_ip_hash_t \<Rightarrow> corsaro_metric_ip_hash_t" where
  "add_packet iplen m =
     (if iplen > 0 then m\<lparr>packets := packets m + 1, bytes := bytes m + ucast iplen\<rparr> else m)"

type_synonym observations = "(u32 \<times> u64 \<times> bool) set"

definition metrics_seen :: "observations \<Rightarrow> u32 \<Rightarrow> u64 set" where
  "metrics_seen obs ip = {t. \<exists>r. (ip, t, r) \<in> obs}"

definition ips_seen :: "observations \<Rightarrow> u64 \<Rightarrow> bool \<Rightarrow> u32 set" where
  "ips_seen obs t r = {ip. (ip, t, r) \<in> obs}"

definition ip_inv :: "observations \<Rightarrow> u32 \<Rightarrow> corsaro_ip_hash_t \<Rightarrow> bool" where
  "ip_inv obs ip ih \<longleftrightarrow>
     wf_iphash ih
     \<and> dom (metric_bits ih) = metrics_seen obs ip
     \<and> (\<forall>t. (bit (seen_bits ih t) 0 \<longleftrightarrow> (ip, t, True) \<in> obs)
            \<and> (bit (seen_bits ih t) 1 \<longleftrightarrow> (ip, t, False) \<in> obs))"

definition maps_inv ::
  "observations \<Rightarrow> (u32 \<rightharpoonup> corsaro_ip_hash_t) \<Rightarrow> kh_tally_t \<Rightarrow> bool" where
  "maps_inv obs kn tal \<longleftrightarrow>
     (\<forall>ip. case kn ip of
             None \<Rightarrow> metrics_seen obs ip = {}
           | Some ih \<Rightarrow> ip_inv obs ip ih)
     \<and> (\<forall>t. srcips (tally_of tal t) = of_nat (card (ips_seen obs t True))
            \<and> destips (tally_of tal t) = of_nat (card (ips_seen obs t False)))"

definition metric_bound :: "observations \<Rightarrow> bool" where
  "metric_bound obs \<longleftrightarrow> (\<forall>ip. card (metrics_seen obs ip) < 2 ^ 32)"

definition body_obs :: "corsaro_report_msg_body_t \<Rightarrow> observations" where
  "body_obs b = (\<lambda>t. (body_ipaddr b, t, issrc b \<noteq> 0)) ` set (tags b)"

definition bodies_obs :: "corsaro_report_msg_body_t list \<Rightarrow> observations" where
  "bodies_obs bs = (\<Union>b \<in> set bs. body_obs b)"

section \<open>Packet processing threads (\<^verbatim>\<open>libcorsaro3/plugins/corsaro_report.c\<close>)\<close>

text \<open>
  \<^verbatim>\<open>corsaro_packet_tags_t\<close>, the tags attached to a packet by the tagging component
  (the fields that \<^verbatim>\<open>process_tags\<close> reads).
\<close>

record corsaro_packet_tags_t =
  providers_used :: u32
  protocol :: u8
  src_port :: u16
  dest_port :: u16
  maxmind_continent :: u16
  maxmind_country :: u16
  netacq_continent :: u16
  netacq_country :: u16
  prefixasn :: u32

definition METRIC_PORT_MAX :: u32 where "METRIC_PORT_MAX = 65536"

definition METRIC_ICMP_MAX :: u32 where "METRIC_ICMP_MAX = 256"

definition METRIC_IPPROTOS_MAX :: u32 where "METRIC_IPPROTOS_MAX = 256"

text \<open>Protocol numbers of libtrace and provider IDs of libipmeta, as those libraries define them.\<close>

definition TRACE_IPPROTO_ICMP :: u8 where "TRACE_IPPROTO_ICMP = 1"

definition TRACE_IPPROTO_TCP :: u8 where "TRACE_IPPROTO_TCP = 6"

definition TRACE_IPPROTO_UDP :: u8 where "TRACE_IPPROTO_UDP = 17"

definition IPMETA_PROVIDER_MAXMIND :: nat where "IPMETA_PROVIDER_MAXMIND = 1"

definition IPMETA_PROVIDER_NETACQ_EDGE :: nat where "IPMETA_PROVIDER_NETACQ_EDGE = 2"

definition IPMETA_PROVIDER_PFX2AS :: nat where "IPMETA_PROVIDER_PFX2AS = 3"

definition maxmind_tagged :: "corsaro_packet_tags_t \<Rightarrow> bool" where
  "maxmind_tagged tg \<longleftrightarrow> providers_used tg AND push_bit IPMETA_PROVIDER_MAXMIND 1 \<noteq> 0"

definition netacq_tagged :: "corsaro_packet_tags_t \<Rightarrow> bool" where
  "netacq_tagged tg \<longleftrightarrow> providers_used tg AND push_bit IPMETA_PROVIDER_NETACQ_EDGE 1 \<noteq> 0"

definition pfx2as_tagged :: "corsaro_packet_tags_t \<Rightarrow> bool" where
  "pfx2as_tagged tg \<longleftrightarrow> providers_used tg AND push_bit IPMETA_PROVIDER_PFX2AS 1 \<noteq> 0"

text \<open>
  \<^verbatim>\<open>process_single_tag\<close>: skip a value at or above the bound of its class, otherwise append
  the metric ID. \<open>max_tags\<close> stands for \<^verbatim>\<open>CORSARO_MAX_SUPPORTED_TAGS\<close>, whose definition
  is in a header outside the sources at hand; the \<^verbatim>\<open>assert\<close> aborts (\<open>None\<close>) when the
  body is full.
\<close>

definition process_single_tag ::
  "nat \<Rightarrow> corsaro_report_metric_class_t \<Rightarrow> u32 \<Rightarrow> u32 \<Rightarrow> corsaro_report_msg_body_t
     \<Rightarrow> corsaro_report_msg_body_t option" where
  "process_single_tag max_tags class tagval maxtagval body =
     (if maxtagval > 0 \<and> tagval \<ge> maxtagval then Some body
      else if \<not> length (tags body) < max_tags then None
      else Some (body\<lparr>tags := tags body @ [GEN_METRICID3 (class_num class) tagval]\<rparr>))"

text \<open>
  The blocks of \<^verbatim>\<open>process_tags\<close> that follow the combined tag, in source order: the
  protocol with its ports or ICMP type and code, then the tags of each provider present.
\<close>

definition add_protocol_tags ::
  "nat \<Rightarrow> corsaro_packet_tags_t \<Rightarrow> corsaro_report_msg_body_t \<Rightarrow> corsaro_report_msg_body_t option" where
  "add_protocol_tags max_tags tg b1 =
     Option.bind
       (process_single_tag max_tags CORSARO_METRIC_CLASS_IP_PROTOCOL
          (ucast (protocol tg)) METRIC_IPPROTOS_MAX b1)
       (\<lambda>b2.
          if protocol tg = TRACE_IPPROTO_ICMP then
            Option.bind
              (process_single_tag max_tags CORSARO_METRIC_CLASS_ICMP_TYPE
                 (ucast (src_port tg)) METRIC_ICMP_MAX b2)
              (process_single_tag max_tags CORSARO_METRIC_CLASS_ICMP_CODE
                 (ucast (dest_port tg)) METRIC_ICMP_MAX)
          else if protocol tg = TRACE_IPPROTO_TCP then
            Option.bind
              (process_single_tag max_tags CORSARO_METRIC_CLASS_TCP_SOURCE_PORT
                 (ucast (src_port tg)) METRIC_PORT_MAX b2)
              (process_single_tag max_tags CORSARO_METRIC_CLASS_TCP_DEST_PORT
                 (ucast (dest_port tg)) METRIC_PORT_MAX)
          else if protocol tg = TRACE_IPPROTO_UDP then
            Option.bind
              (process_single_tag max_tags CORSARO_METRIC_CLASS_UDP_SOURCE_PORT
                 (ucast (src_port tg)) METRIC_PORT_MAX b2)
              (process_single_tag max_tags CORSARO_METRIC_CLASS_UDP_DEST_PORT
                 (ucast (dest_port tg)) METRIC_PORT_MAX)
          else Some b2)"

definition add_maxmind_tags ::
  "nat \<Rightarrow> corsaro_packet_tags_t \<Rightarrow> corsaro_report_msg_body_t \<Rightarrow> corsaro_report_msg_body_t option" where
  "add_maxmind_tags max_tags tg b =
     (if maxmind_tagged tg then
        Option.bind
          (process_single_tag max_tags CORSARO_METRIC_CLASS_MAXMIND_CONTINENT
             (ucast (maxmind_continent tg)) 0 b)
          (process_single_tag max_tags CORSARO_METRIC_CLASS_MAXMIND_COUNTRY
             (ucast (maxmind_country tg)) 0)
      else Some b)"

definition add_netacq_tags ::
  "nat \<Rightarrow> corsaro_packet_tags_t \<Rightarrow> corsaro_report_msg_body_t \<Rightarrow> corsaro_report_msg_body_t option" where
  "add_netacq_tags max_tags tg b =
     (if netacq_tagged tg then
        Option.bind
          (process_single_tag max_tags CORSARO_METRIC_CLASS_NETACQ_CONTINENT
             (ucast (netacq_continent tg)) 0 b)
          (process_single_tag max_tags CORSARO_METRIC_CLASS_NETACQ_COUNTRY
             (ucast (netacq_country tg)) 0)
      else Some b)"

definition add_pfx2as_tags ::
  "nat \<Rightarrow> corsaro_packet_tags_t \<Rightarrow> corsaro_report_msg_body_t \<Rightarrow> corsaro_report_msg_body_t option" where
  "add_pfx2as_tags max_tags tg b =
     (if pfx2as_tagged tg then
        process_single_tag max_tags CORSARO_METRIC_CLASS_PREFIX_ASN (prefixasn tg) 0 b
      else Some b)"

text \<open>
  \<^verbatim>\<open>process_tags\<close>: fill the body of an IP update from the tags of a packet
  (\<open>None\<close> for a \<^verbatim>\<open>NULL\<close> tag set). The size is the IP length for a source address and 0
  for a destination address; the combined tag always comes first.
\<close>

definition process_tags ::
  "nat \<Rightarrow> corsaro_packet_tags_t option \<Rightarrow> u16 \<Rightarrow> u32 \<Rightarrow> u8 \<Rightarrow> corsaro_report_msg_body_t option" where
  "process_tags max_tags tgs iplen addr src =
     (let body0 = \<lparr>body_ipaddr = addr, issrc = src, tags = [],
                   body_size = (if src \<noteq> 0 then iplen else 0)\<rparr>
      in Option.bind
           (process_single_tag max_tags CORSARO_METRIC_CLASS_COMBINED 0 0 body0)
           (\<lambda>b1.
              case tgs of
                None \<Rightarrow> Some b1
              | Some tg \<Rightarrow>
                  if providers_used tg = 0 then Some b1
                  else
                    Option.bind (add_protocol_tags max_tags tg b1)
                      (\<lambda>b3. Option.bind (add_maxmind_tags max_tags tg b3)
                         (\<lambda>b4. Option.bind (add_netacq_tags max_tags tg b4)
                            (add_pfx2as_tags max_tags tg)))))"


section \<open>The merge thread (\<^verbatim>\<open>libcorsaro3/plugins/corsaro_report.c\<close>)\<close>

text \<open>\<^verbatim>\<open>corsaro_report_result_t\<close>: the combined tally of one metric in one interval.\<close>

record corsaro_report_result_t =
  res_metricid :: u64
  pkt_cnt :: u64
  res_bytes :: u64
  uniq_src_ips :: u32
  uniq_dst_ips :: u32
  attimestamp :: u32
  label :: string

text \<open>\<^verbatim>\<open>new_result\<close>: a fresh result with zero counts.\<close>

definition new_result :: "u64 \<Rightarrow> string \<Rightarrow> u32 \<Rightarrow> corsaro_report_result_t" where
  "new_result mid outlabel ts =
     \<lparr>res_metricid = mid, pkt_cnt = 0, res_bytes = 0, uniq_src_ips = 0, uniq_dst_ips = 0,
      attimestamp = ts, label = outlabel\<rparr>"

text \<open>
  The loop of \<^verbatim>\<open>update_tracker_results\<close> over the tallies of a tracker: find or create the
  result of the metric and add the tally to it. The result map keeps insertion order.
\<close>

fun add_tallies ::
  "(u64 \<times> corsaro_report_result_t) list \<Rightarrow> corsaro_metric_ip_hash_t list \<Rightarrow> string \<Rightarrow> u32
     \<Rightarrow> (u64 \<times> corsaro_report_result_t) list" where
  "add_tallies results [] outlabel ts = results"
| "add_tallies results (iter # rest) outlabel ts =
     (let r = (case map_of results (metricid iter) of
                 None \<Rightarrow> new_result (metricid iter) outlabel ts
               | Some r \<Rightarrow> r);
          r' = r\<lparr>uniq_src_ips := uniq_src_ips r + srcips iter,
                 uniq_dst_ips := uniq_dst_ips r + destips iter,
                 pkt_cnt := pkt_cnt r + ucast (packets iter),
                 res_bytes := res_bytes r + bytes iter\<rparr>
      in add_tallies (AList.update (metricid iter) r' results) rest outlabel ts)"

text \<open>
  The state of the polling loop of \<^verbatim>\<open>corsaro_report_merge_interval_results\<close>.
\<close>

record merge_poll_state =
  results :: "(u64 \<times> corsaro_report_result_t) list"
  trackers_done :: "nat \<Rightarrow> bool"
  totaldone :: u8
  skipresult :: u8

text \<open>
  One pass of the inner \<^verbatim>\<open>for\<close> body for tracker \<open>i\<close>. \<open>view\<close> is the tracker as the
  merge thread finds it under the lock, \<open>None\<close> when \<^verbatim>\<open>pthread_mutex_trylock\<close> fails.
  \<open>None\<close> as a result is an abort: the failed \<^verbatim>\<open>assert\<close>, or \<^verbatim>\<open>update_tracker_results\<close>
  reading a \<^verbatim>\<open>NULL\<close> \<^verbatim>\<open>lastresult\<close>.
\<close>

definition poll_tracker ::
  "string \<Rightarrow> u32 \<Rightarrow> corsaro_report_iptracker_t option \<Rightarrow> nat \<Rightarrow> merge_poll_state
     \<Rightarrow> merge_poll_state option" where
  "poll_tracker outlabel ts view i st =
     (if trackers_done st i then Some st
      else case view of
        None \<Rightarrow> Some st
      | Some tracker \<Rightarrow>
          if \<not> ts \<ge> lastresultts tracker then None
          else if lastresultts tracker = ts then
            (case lastresult tracker of
               None \<Rightarrow> None
             | Some tallies \<Rightarrow>
                 Some (st\<lparr>results := add_tallies (results st) (map snd tallies) outlabel ts,
                          trackers_done := (trackers_done st)(i := True),
                          totaldone := totaldone st + 1\<rparr>))
          else if haltphase tracker = 2 then
            Some (st\<lparr>trackers_done := (trackers_done st)(i := True),
                     totaldone := totaldone st + 1,
                     skipresult := 1\<rparr>)
          else Some st)"

text \<open>The inner \<^verbatim>\<open>for\<close> loop over the trackers, for one pass of the \<^verbatim>\<open>do\<close> loop.\<close>

fun poll_trackers ::
  "string \<Rightarrow> u32 \<Rightarrow> (nat \<Rightarrow> corsaro_report_iptracker_t option) \<Rightarrow> nat list \<Rightarrow> merge_poll_state
     \<Rightarrow> merge_poll_state option" where
  "poll_trackers outlabel ts views [] st = Some st"
| "poll_trackers outlabel ts views (i # is) st =
     (case poll_tracker outlabel ts (views i) i st of
        None \<Rightarrow> None
      | Some st' \<Rightarrow> poll_trackers outlabel ts views is st')"

text \<open>
  The \<^verbatim>\<open>do ... while (totaldone < tracker_count)\<close> loop. Each element of \<open>rounds\<close> is
  what the trackers show during one pass. The loop may poll forever; a run that is still
  polling when the observed passes end is \<open>Poll_waiting\<close>, with the state reached.
\<close>

datatype poll_outcome =
    Poll_aborted
  | Poll_waiting merge_poll_state
  | Poll_done merge_poll_state

fun poll_loop ::
  "string \<Rightarrow> nat \<Rightarrow> u32 \<Rightarrow> (nat \<Rightarrow> corsaro_report_iptracker_t option) list \<Rightarrow> merge_poll_state
     \<Rightarrow> poll_outcome" where
  "poll_loop outlabel tracker_count ts [] st = Poll_waiting st"
| "poll_loop outlabel tracker_count ts (views # rounds) st =
     (case poll_trackers outlabel ts views [0..<tracker_count] st of
        None \<Rightarrow> Poll_aborted
      | Some st' \<Rightarrow>
          if unat (totaldone st') < tracker_count
          then poll_loop outlabel tracker_count ts rounds st'
          else Poll_done st')"

text \<open>
  The Avro writer as the merge thread meets it: whether it is active, the output name
  derived for the interval (\<open>None\<close>: failure), whether starting it succeeds, and the
  outcome of \<^verbatim>\<open>write_single_metric\<close> for a result (0, \<^verbatim>\<open>AVRO_CONVERSION_FAILURE\<close> or
  \<^verbatim>\<open>AVRO_WRITE_FAILURE\<close>).
\<close>

record avro_writer_env =
  writer_active :: bool
  derived_name :: "string option"
  start_succeeds :: bool
  write_single_metric :: "corsaro_report_result_t \<Rightarrow> int"

definition AVRO_CONVERSION_FAILURE :: int where "AVRO_CONVERSION_FAILURE = -1"

definition AVRO_WRITE_FAILURE :: int where "AVRO_WRITE_FAILURE = -2"

text \<open>
  \<^verbatim>\<open>write_all_metrics\<close>: the rows appended to the output, and the error flag returned.
\<close>

fun write_all_metrics ::
  "avro_writer_env \<Rightarrow> corsaro_report_result_t list \<Rightarrow> bool \<Rightarrow> int
     \<Rightarrow> corsaro_report_result_t list \<times> int" where
  "write_all_metrics w [] stopwriting haderror = ([], haderror)"
| "write_all_metrics w (r # rs) stopwriting haderror =
     (if \<not> stopwriting then
        (let ret = write_single_metric w r;
             (rows, e) = write_all_metrics w rs (ret = AVRO_WRITE_FAILURE)
                           (if ret < 0 then 1 else haderror)
         in (if ret = 0 then r # rows else rows, e))
      else write_all_metrics w rs stopwriting haderror)"

text \<open>The loop state at its start: nothing merged, no tracker done.\<close>

definition init_poll_state :: merge_poll_state where
  "init_poll_state = \<lparr>results = [], trackers_done = (\<lambda>_. False), totaldone = 0, skipresult = 0\<rparr>"

text \<open>
  What a call of \<^verbatim>\<open>corsaro_report_merge_interval_results\<close> comes to: an abort, a loop
  still polling, or a return with its value and the rows written.
\<close>

datatype merge_outcome =
    Merge_aborted
  | Merge_waiting
  | Merge_returned int "corsaro_report_result_t list"

text \<open>
  \<^verbatim>\<open>corsaro_report_merge_interval_results\<close>. \<open>m\<close> is the merge state (\<open>None\<close>:
  \<^verbatim>\<open>NULL\<close>), \<open>fin_ts\<close> the interval that has ended.
\<close>

definition corsaro_report_merge_interval_results ::
  "avro_writer_env option \<Rightarrow> string \<Rightarrow> nat \<Rightarrow> u32
     \<Rightarrow> (nat \<Rightarrow> corsaro_report_iptracker_t option) list \<Rightarrow> merge_outcome" where
  "corsaro_report_merge_interval_results m outlabel tracker_count fin_ts rounds =
     (case m of
        None \<Rightarrow> Merge_returned (-1) []
      | Some w \<Rightarrow>
          (case poll_loop outlabel tracker_count fin_ts rounds init_poll_state of
             Poll_aborted \<Rightarrow> Merge_aborted
           | Poll_waiting _ \<Rightarrow> Merge_waiting
           | Poll_done st \<Rightarrow>
               if skipresult st \<noteq> 0 then Merge_returned 0 []
               else if \<not> writer_active w \<and> derived_name w = None then Merge_returned (-1) []
               else if \<not> writer_active w \<and> \<not> start_succeeds w then Merge_returned (-1) []
               else
                 (case write_all_metrics w (map snd (results st)) False 0 of
                    (rows, haderror) \<Rightarrow>
                      if haderror < 0 then Merge_returned (-1) rows
                      else Merge_returned 0 rows)))"

text \<open>
  The pass \<open>final\<close> leaves the loop nothing to wait for: every tracker has either shown
  the tally of the interval in an earlier pass, or can be read now and holds the tally or
  has halted without it.
\<close>

definition shows_interval :: "u32 \<Rightarrow> corsaro_report_iptracker_t option \<Rightarrow> bool" where
  "shows_interval ts view \<longleftrightarrow>
     (case view of None \<Rightarrow> False | Some tracker \<Rightarrow> lastresultts tracker = ts)"

definition settled_view :: "u32 \<Rightarrow> corsaro_report_iptracker_t option \<Rightarrow> bool" where
  "settled_view ts view \<longleftrightarrow>
     (case view of
        None \<Rightarrow> False
      | Some tracker \<Rightarrow>
          lastresultts tracker \<le> ts
          \<and> (if lastresultts tracker = ts then lastresult tracker \<noteq> None
              else haltphase tracker = 2))"

definition settled ::
  "nat \<Rightarrow> u32 \<Rightarrow> (nat \<Rightarrow> corsaro_report_iptracker_t option) list
     \<Rightarrow> (nat \<Rightarrow> corsaro_report_iptracker_t option) \<Rightarrow> bool" where
  "settled tracker_count ts rounds final \<longleftrightarrow>
     (\<forall>j < tracker_count.
        list_ex (\<lambda>views. shows_interval ts (views j)) rounds \<or> settled_view ts (final j))"

definition done_set :: "nat \<Rightarrow> merge_poll_state \<Rightarrow> nat set" where
  "done_set tracker_count st = {j. j < tracker_count \<and> trackers_done st j}"

definition poll_inv :: "nat \<Rightarrow> merge_poll_state \<Rightarrow> bool" where
  "poll_inv tracker_count st \<longleftrightarrow>
     unat (totaldone st) \<le> card (done_set tracker_count st)
     \<and> (tracker_count < 256 \<longrightarrow> unat (totaldone st) = card (done_set tracker_count st))"

definition halted_view ::
  "nat \<Rightarrow> u32 \<Rightarrow> (nat \<Rightarrow> corsaro_report_iptracker_t option) \<Rightarrow> bool" where
  "halted_view i ts views \<longleftrightarrow>
     (case views i of
        None \<Rightarrow> False
      | Some tracker \<Rightarrow> haltphase tracker = 2 \<and> lastresultts tracker \<noteq> ts)"

definition never_at ::
  "nat \<Rightarrow> u32 \<Rightarrow> (nat \<Rightarrow> corsaro_report_iptracker_t option) \<Rightarrow> bool" where
  "never_at i ts views \<longleftrightarrow>
     (case views i of
        None \<Rightarrow> True
      | Some tracker \<Rightarrow> lastresultts tracker \<noteq> ts)"

definition skip_inv ::
  "nat \<Rightarrow> u32 \<Rightarrow> (nat \<Rightarrow> corsaro_report_iptracker_t option) set \<Rightarrow> merge_poll_state \<Rightarrow> bool" where
  "skip_inv i ts R st \<longleftrightarrow>
     (trackers_done st i \<longrightarrow> skipresult st \<noteq> 0 \<and> (\<exists>views \<in> R. halted_view i ts views))"

section \<open>Batching of updates (\<^verbatim>\<open>libcorsaro3/plugins/corsaro_report.c\<close>)\<close>

text \<open>
  \<^verbatim>\<open>REPORT_BATCH_SIZE\<close>, the number of IP updates in one message to a tracker. The
  constant has two definitions: 10000 in \<^verbatim>\<open>libcorsaro/plugins/report/report_internal.h\<close>,
  and 500 in \<^verbatim>\<open>libcorsaro3/plugins/corsaro_report.c\<close>, the file whose
  \<^verbatim>\<open>update_metrics_for_address\<close> uses it.
\<close>

definition REPORT_BATCH_SIZE :: nat where
  "REPORT_BATCH_SIZE = 10000"

definition REPORT_BATCH_SIZE3 :: nat where
  "REPORT_BATCH_SIZE3 = 500"

text \<open>
  \<^verbatim>\<open>corsaro_report_state_t\<close>: the state of a packet processing thread, with the message
  under construction for each tracker.
\<close>

record corsaro_report_state_t =
  nextmsg :: "corsaro_report_ip_message_t list"
  threadid :: u8
  current_interval :: u32
  queueblocks :: int

text \<open>
  \<^verbatim>\<open>corsaro_report_init_processing\<close>: the messages come from \<^verbatim>\<open>calloc\<close>, so every field
  but the sender starts as zero.
\<close>

definition corsaro_report_init_processing :: "nat \<Rightarrow> u8 \<Rightarrow> corsaro_report_state_t" where
  "corsaro_report_init_processing tracker_count tid =
     \<lparr>nextmsg = replicate tracker_count \<lparr>msgtype = 0, sender = tid, timestamp = 0, update = []\<rparr>,
      threadid = tid, current_interval = 0, queueblocks = 0\<rparr>"

text \<open>
  \<^verbatim>\<open>update_metrics_for_address\<close>. \<open>queues\<close> are the incoming queues of the trackers
  (\<^verbatim>\<open>libtrace_message_queue_put\<close> appends). The remainder by a tracker count of 0 is a
  trap, and an abort in \<^verbatim>\<open>process_tags\<close> aborts the call: both are \<open>None\<close>.
\<close>

definition update_metrics_for_address ::
  "nat \<Rightarrow> nat \<Rightarrow> corsaro_report_ip_message_t list list \<times> corsaro_report_state_t
     \<Rightarrow> u32 \<Rightarrow> u8 \<Rightarrow> u16 \<Rightarrow> corsaro_packet_tags_t option
     \<Rightarrow> (corsaro_report_ip_message_t list list \<times> corsaro_report_state_t) option" where
  "update_metrics_for_address max_tags tracker_count sys addr src iplen tgs =
     (if tracker_count = 0 then None
      else
        (let queues = fst sys; state = snd sys;
             trackerhash = unat (drop_bit 24 addr) mod tracker_count;
             msg = nextmsg state ! trackerhash
         in case process_tags max_tags tgs iplen addr src of
              None \<Rightarrow> None
            | Some body \<Rightarrow>
                (let msg' = msg\<lparr>update := update msg @ [body]\<rparr>
                 in if length (update msg') < REPORT_BATCH_SIZE3 then
                      Some (queues, state\<lparr>nextmsg := (nextmsg state)[trackerhash := msg']\<rparr>)
                    else
                      Some (queues[trackerhash := queues ! trackerhash @ [msg']],
                            state\<lparr>queueblocks :=
                                     (if length (queues ! trackerhash) \<ge> 2048
                                      then queueblocks state + 1 else queueblocks state),
                                   nextmsg := (nextmsg state)[trackerhash := msg'\<lparr>update := []\<rparr>]\<rparr>))))"

text \<open>
  \<^verbatim>\<open>corsaro_report_process_packet\<close>, given what \<^verbatim>\<open>extract_addresses\<close> found in the packet
  (\<open>None\<close> where it fails, and the packet is skipped): one update for the source
  address, then one for the destination address.
\<close>

definition corsaro_report_process_packet ::
  "nat \<Rightarrow> nat \<Rightarrow> corsaro_report_ip_message_t list list \<times> corsaro_report_state_t
     \<Rightarrow> (u32 \<times> u32 \<times> u16) option \<Rightarrow> corsaro_packet_tags_t option
     \<Rightarrow> (corsaro_report_ip_message_t list list \<times> corsaro_report_state_t) option" where
  "corsaro_report_process_packet max_tags tracker_count sys extracted tgs =
     (case extracted of
        None \<Rightarrow> Some sys
      | Some (srcaddr, dstaddr, iplen) \<Rightarrow>
          (case update_metrics_for_address max_tags tracker_count sys srcaddr 1 iplen tgs of
             None \<Rightarrow> None
           | Some sys1 \<Rightarrow>
               update_metrics_for_address max_tags tracker_count sys1 dstaddr 0 iplen tgs))"

text \<open>\<^verbatim>\<open>corsaro_report_start_interval\<close>.\<close>

definition corsaro_report_start_interval ::
  "corsaro_report_state_t \<Rightarrow> u32 \<Rightarrow> corsaro_report_state_t" where
  "corsaro_report_start_interval state int_start = state\<lparr>current_interval := int_start\<rparr>"

text \<open>
  The body of the loop over the trackers that \<^verbatim>\<open>corsaro_report_end_interval\<close> and
  \<^verbatim>\<open>corsaro_report_halt_processing\<close> both have, for tracker \<open>i\<close>: a pending message with
  at least one update is put on the queue and restarted, then \<open>msg\<close> is put on the queue.
\<close>

definition send_pending_then ::
  "corsaro_report_ip_message_t
     \<Rightarrow> corsaro_report_ip_message_t list list \<times> corsaro_report_state_t \<Rightarrow> nat
     \<Rightarrow> corsaro_report_ip_message_t list list \<times> corsaro_report_state_t" where
  "send_pending_then msg sys i =
     (let queues = fst sys; state = snd sys;
          pend = nextmsg state ! i;
          sys1 = (if length (update pend) > 0 then
                    (queues[i := queues ! i @ [pend]],
                     state\<lparr>nextmsg := (nextmsg state)[i := pend\<lparr>update := []\<rparr>]\<rparr>)
                  else (queues, state))
      in ((fst sys1)[i := fst sys1 ! i @ [msg]], snd sys1))"

text \<open>
  \<^verbatim>\<open>corsaro_report_end_interval\<close>: the interval-end message carries the start time of the
  interval and goes to every tracker, after its pending updates.
\<close>

definition corsaro_report_end_interval ::
  "nat \<Rightarrow> corsaro_report_ip_message_t list list \<times> corsaro_report_state_t
     \<Rightarrow> corsaro_report_ip_message_t list list \<times> corsaro_report_state_t" where
  "corsaro_report_end_interval tracker_count sys =
     (let msg = \<lparr>msgtype = CORSARO_IP_MESSAGE_INTERVAL, sender = threadid (snd sys),
                 timestamp = current_interval (snd sys), update = []\<rparr>;
          sent = foldl (send_pending_then msg) sys [0..<tracker_count]
      in (fst sent, (snd sent)\<lparr>queueblocks := 0\<rparr>))"

text \<open>
  \<^verbatim>\<open>corsaro_report_halt_processing\<close>, up to the wait for the tracker threads; the state is
  freed after it.
\<close>

definition corsaro_report_halt_processing ::
  "nat \<Rightarrow> corsaro_report_ip_message_t list list \<times> corsaro_report_state_t
     \<Rightarrow> corsaro_report_ip_message_t list list \<times> corsaro_report_state_t" where
  "corsaro_report_halt_processing tracker_count sys =
     (let msg = \<lparr>msgtype = CORSARO_IP_MESSAGE_HALT, sender = threadid (snd sys),
                 timestamp = 0, update = []\<rparr>
      in foldl (send_pending_then msg) sys [0..<tracker_count])"

text \<open>
  The calls that a packet processing thread receives, and a run of the thread over a list
  of them. Nothing is called after \<^verbatim>\<open>corsaro_report_halt_processing\<close>.
\<close>

datatype processor_call =
    Process_packet "(u32 \<times> u32 \<times> u16) option" "corsaro_packet_tags_t option"
  | Start_interval u32
  | End_interval
  | Halt_processing

fun processor_run ::
  "nat \<Rightarrow> nat \<Rightarrow> corsaro_report_ip_message_t list list \<times> corsaro_report_state_t
     \<Rightarrow> processor_call list
     \<Rightarrow> (corsaro_report_ip_message_t list list \<times> corsaro_report_state_t) option" where
  "processor_run max_tags tracker_count sys [] = Some sys"
| "processor_run max_tags tracker_count sys (call # calls) =
     (case call of
        Process_packet extracted tgs \<Rightarrow>
          (case corsaro_report_process_packet max_tags tracker_count sys extracted tgs of
             None \<Rightarrow> None
           | Some sys' \<Rightarrow> processor_run max_tags tracker_count sys' calls)
      | Start_interval int_start \<Rightarrow>
          processor_run max_tags tracker_count
            (fst sys, corsaro_report_start_interval (snd sys) int_start) calls
      | End_interval \<Rightarrow>
          processor_run max_tags tracker_count
            (corsaro_report_end_interval tracker_count sys) calls
      | Halt_processing \<Rightarrow> Some (corsaro_report_halt_processing tracker_count sys))"

text \<open>
  What holds of the queues and the pending messages throughout a run: a pending message
  has the type it was allocated with and fewer than \<^verbatim>\<open>REPORT_BATCH_SIZE\<close> updates; a queued
  message has one of the two types of the enum, and one with updates has the first.
\<close>

definition proc_inv ::
  "nat \<Rightarrow> corsaro_report_ip_message_t list list \<times> corsaro_report_state_t \<Rightarrow> bool" where
  "proc_inv tracker_count sys \<longleftrightarrow>
     length (fst sys) = tracker_count \<and> length (nextmsg (snd sys)) = tracker_count \<and>
     (\<forall>k<tracker_count.
        msgtype (nextmsg (snd sys) ! k) = CORSARO_IP_MESSAGE_HALT \<and>
        length (update (nextmsg (snd sys) ! k)) < REPORT_BATCH_SIZE3 \<and>
        (\<forall>m \<in> set (fst sys ! k).
           (msgtype m = CORSARO_IP_MESSAGE_HALT \<or> msgtype m = CORSARO_IP_MESSAGE_INTERVAL) \<and>
           (update m \<noteq> [] \<longrightarrow> msgtype m = CORSARO_IP_MESSAGE_HALT) \<and>
           length (update m) \<le> REPORT_BATCH_SIZE3))"

section \<open>Port ranges of the configuration (\<^verbatim>\<open>libcorsaro/plugins/report/corsaro_report.c\<close>)\<close>

text \<open>
  The outcome of \<^verbatim>\<open>strtoul\<close> on a piece of text: the number returned and the
  \<^verbatim>\<open>errno\<close> it leaves.
\<close>

record strtoul_result =
  parsed :: nat
  errno :: int

definition INVALID_PORT :: nat where
  "INVALID_PORT = 0xFFFFFFFF"

text \<open>
  \<^verbatim>\<open>strtoport\<close>: a conversion error or a port above 65535 is invalid, unless \<open>capmax\<close>
  asks for a port above 65535 to be capped.
\<close>

definition strtoport :: "strtoul_result \<Rightarrow> bool \<Rightarrow> nat" where
  "strtoport r capmax =
     (if errno r \<noteq> 0 then INVALID_PORT
      else if parsed r > 65535 \<and> capmax = False then INVALID_PORT
      else if parsed r > 65535 then 65535
      else parsed r)"

text \<open>
  An item of a port range list: a node that is not a scalar, a text without a dash, or
  the two texts around the first dash.
\<close>

datatype range_node =
    Not_scalar
  | Single strtoul_result
  | Dashed strtoul_result strtoul_result

text \<open>
  The bounds that \<^verbatim>\<open>parse_port_ranges\<close> reads from a scalar item; \<open>None\<close> where the
  loop \<^verbatim>\<open>continue\<close>s on an invalid port.
\<close>

definition range_bounds :: "range_node \<Rightarrow> (nat \<times> nat) option" where
  "range_bounds node =
     (case node of
        Not_scalar \<Rightarrow> None
      | Single r \<Rightarrow>
          (let first_port = strtoport r False
           in if first_port = INVALID_PORT then None else Some (first_port, first_port))
      | Dashed r1 r2 \<Rightarrow>
          (let first_port = strtoport r1 False
           in if first_port = INVALID_PORT then None
              else (let last_port = strtoport r2 True
                    in if last_port = INVALID_PORT then None else Some (first_port, last_port))))"

text \<open>
  The byte that the inner loop of \<^verbatim>\<open>parse_port_ranges\<close> ORs into \<^verbatim>\<open>port_array[index]\<close>.
  The shifts are computed on \<^verbatim>\<open>int\<close> and the result is cut back to eight bits.
\<close>

definition toadd_byte :: "nat \<Rightarrow> nat \<Rightarrow> nat \<Rightarrow> u8" where
  "toadd_byte first_port last_port index =
     (let msb = index * 8; lsb = msb + 7;
          toadd0 = (0xff :: u8);
          toadd1 = (if first_port > msb then
                      (if first_port - msb \<ge> 8 then 0
                       else ucast ((ucast toadd0 :: 32 word) AND drop_bit (first_port - msb) 0xff))
                    else toadd0);
          toadd2 = (if last_port < lsb then
                      (if lsb - last_port \<ge> 8 then 0
                       else ucast ((ucast toadd1 :: 32 word) AND push_bit (lsb - last_port) 0xff))
                    else toadd1)
      in toadd2)"

text \<open>The inner loop of \<^verbatim>\<open>parse_port_ranges\<close>, from \<open>index\<close> on.\<close>

function set_port_range :: "u8 list \<Rightarrow> nat \<Rightarrow> nat \<Rightarrow> nat \<Rightarrow> u8 list" where
  "set_port_range port_array first_port last_port index =
     (if index < 8192 then
        (if index * 8 > last_port then port_array
         else set_port_range
                (port_array[index := port_array ! index OR toadd_byte first_port last_port index])
                first_port last_port (index + 1))
      else port_array)"
  by pat_completeness auto

termination
  by (relation "measure (\<lambda>(port_array, first_port, last_port, index). 8192 - index)") auto

text \<open>
  \<^verbatim>\<open>parse_port_ranges\<close>: the bitmap and the \<^verbatim>\<open>seen_flag\<close> after the items. A node that
  is not a scalar ends the whole call; the first accepted range clears the bitmap.
\<close>

fun parse_port_ranges :: "u8 list \<Rightarrow> range_node list \<Rightarrow> bool \<Rightarrow> u8 list \<times> bool" where
  "parse_port_ranges port_array [] seen_flag = (port_array, seen_flag)"
| "parse_port_ranges port_array (node # rest) seen_flag =
     (if node = Not_scalar then (port_array, seen_flag)
      else case range_bounds node of
        None \<Rightarrow> parse_port_ranges port_array rest seen_flag
      | Some (first_port, last_port) \<Rightarrow>
          if last_port < first_port then parse_port_ranges port_array rest seen_flag
          else
            (let cleared = (if seen_flag = False then replicate 8192 0 else port_array)
             in parse_port_ranges (set_port_range cleared first_port last_port (first_port div 8)) rest True))"

text \<open>\<^verbatim>\<open>allowed_ports_t\<close>, with the four flags local to \<^verbatim>\<open>corsaro_report_parse_config\<close>.\<close>

record allowed_ports_t =
  tcp_sources :: "u8 list"
  tcp_dests :: "u8 list"
  udp_sources :: "u8 list"
  udp_dests :: "u8 list"
  set_tcp_src_ports :: bool
  set_tcp_dest_ports :: bool
  set_udp_src_ports :: bool
  set_udp_dest_ports :: bool

text \<open>The value of an option in the YAML mapping of the plugin.\<close>

datatype yaml_value =
    Scalar_value string
  | Sequence_value "range_node list"
  | Mapping_value

text \<open>
  The part of the option loop of \<^verbatim>\<open>corsaro_report_parse_config\<close> that deals with the port
  range options, for one pair of the mapping.
\<close>

definition parse_port_option :: "allowed_ports_t \<Rightarrow> string \<times> yaml_value \<Rightarrow> allowed_ports_t" where
  "parse_port_option conf pair =
     (case snd pair of
        Sequence_value items \<Rightarrow>
          (let c1 = (if fst pair = ''tcp_source_port_range'' then
                       (case parse_port_ranges (tcp_sources conf) items (set_tcp_src_ports conf) of
                          (a, f) \<Rightarrow> conf\<lparr>tcp_sources := a, set_tcp_src_ports := f\<rparr>)
                     else conf);
               c2 = (if fst pair = ''tcp_dest_port_range'' then
                       (case parse_port_ranges (tcp_dests c1) items (set_tcp_dest_ports c1) of
                          (a, f) \<Rightarrow> c1\<lparr>tcp_dests := a, set_tcp_dest_ports := f\<rparr>)
                     else c1);
               c3 = (if fst pair = ''udp_source_port_range'' then
                       (case parse_port_ranges (udp_sources c2) items (set_udp_src_ports c2) of
                          (a, f) \<Rightarrow> c2\<lparr>udp_sources := a, set_udp_src_ports := f\<rparr>)
                     else c2);
               c4 = (if fst pair = ''udp_dest_port_range'' then
                       (case parse_port_ranges (udp_dests c3) items (set_udp_dest_ports c3) of
                          (a, f) \<Rightarrow> c3\<lparr>udp_dests := a, set_udp_dest_ports := f\<rparr>)
                     else c3)
           in c4)
      | _ \<Rightarrow> conf)"

text \<open>
  \<^verbatim>\<open>corsaro_report_parse_config\<close>, port ranges only: the flags start false, the bitmaps
  with whatever \<^verbatim>\<open>malloc\<close> returned; after the options, a bitmap whose flag is still
  false is filled with \<^verbatim>\<open>0xff\<close>.
\<close>

definition default_all_ports :: "allowed_ports_t \<Rightarrow> allowed_ports_t" where
  "default_all_ports conf =
     conf\<lparr>tcp_sources := (if set_tcp_src_ports conf = False then replicate 8192 0xff
                           else tcp_sources conf),
          tcp_dests := (if set_tcp_dest_ports conf = False then replicate 8192 0xff
                         else tcp_dests conf),
          udp_sources := (if set_udp_src_ports conf = False then replicate 8192 0xff
                           else udp_sources conf),
          udp_dests := (if set_udp_dest_ports conf = False then replicate 8192 0xff
                         else udp_dests conf)\<rparr>"

definition corsaro_report_parse_config ::
  "u8 list \<times> u8 list \<times> u8 list \<times> u8 list \<Rightarrow> (string \<times> yaml_value) list \<Rightarrow> allowed_ports_t" where
  "corsaro_report_parse_config garbage options =
     default_all_ports
       (foldl parse_port_option
          \<lparr>tcp_sources = fst garbage, tcp_dests = fst (snd garbage),
           udp_sources = fst (snd (snd garbage)), udp_dests = snd (snd (snd garbage)),
           set_tcp_src_ports = False, set_tcp_dest_ports = False,
           set_udp_src_ports = False, set_udp_dest_ports = False\<rparr>
          options)"

text \<open>
  The bit of port \<open>p\<close> in a bitmap, in the layout that \<^verbatim>\<open>parse_port_ranges\<close> writes: byte
  \<open>p / 8\<close>, most significant bit first.
\<close>

definition port_allowed :: "u8 list \<Rightarrow> nat \<Rightarrow> bool" where
  "port_allowed port_array p \<longleftrightarrow> bit (port_array ! (p div 8)) (7 - p mod 8)"

text \<open>The four port range options, with their bitmaps and flags.\<close>

datatype port_option = Tcp_source | Tcp_dest | Udp_source | Udp_dest

fun option_name :: "port_option \<Rightarrow> string" where
  "option_name Tcp_source = ''tcp_source_port_range''"
| "option_name Tcp_dest = ''tcp_dest_port_range''"
| "option_name Udp_source = ''udp_source_port_range''"
| "option_name Udp_dest = ''udp_dest_port_range''"

fun bitmap_of :: "port_option \<Rightarrow> allowed_ports_t \<Rightarrow> u8 list" where
  "bitmap_of Tcp_source conf = tcp_sources conf"
| "bitmap_of Tcp_dest conf = tcp_dests conf"
| "bitmap_of Udp_source conf = udp_sources conf"
| "bitmap_of Udp_dest conf = udp_dests conf"

fun flag_of :: "port_option \<Rightarrow> allowed_ports_t \<Rightarrow> bool" where
  "flag_of Tcp_source conf = set_tcp_src_ports conf"
| "flag_of Tcp_dest conf = set_tcp_dest_ports conf"
| "flag_of Udp_source conf = set_udp_src_ports conf"
| "flag_of Udp_dest conf = set_udp_dest_ports conf"

text \<open>
  The items that the parser reads for an option: those of every list given under the
  name of the option, each list up to its first item that is not a scalar.
\<close>

definition items_read :: "port_option \<Rightarrow> (string \<times> yaml_value) list \<Rightarrow> range_node list" where
  "items_read opt options =
     concat (map (\<lambda>pair. case snd pair of
                     Sequence_value items \<Rightarrow>
                       if fst pair = option_name opt
                       then takeWhile (\<lambda>node. node \<noteq> Not_scalar) items else []
                   | _ \<Rightarrow> [])
               options)"

text \<open>
  An item is accepted as a range when its first port converts without error to at most
  65535, its last port (if any) converts without error, and the first port is not above
  the last. The last port may be above 65535.
\<close>

definition accepted :: "range_node \<Rightarrow> bool" where
  "accepted node =
     (case node of
        Not_scalar \<Rightarrow> False
      | Single r \<Rightarrow> errno r = 0 \<and> parsed r \<le> 65535
      | Dashed r1 r2 \<Rightarrow>
          errno r1 = 0 \<and> parsed r1 \<le> 65535 \<and> errno r2 = 0 \<and> parsed r1 \<le> parsed r2)"

definition covers :: "nat \<Rightarrow> range_node \<Rightarrow> bool" where
  "covers p node =
     (accepted node \<and>
      (case node of
         Not_scalar \<Rightarrow> False
       | Single r \<Rightarrow> p = parsed r
       | Dashed r1 r2 \<Rightarrow> parsed r1 \<le> p \<and> p \<le> parsed r2))"

text \<open>
  The bitmap as the specification words it: every port when no range is configured,
  otherwise the ports of the configured ranges whose bounds are in order and both at most
  65535.
\<close>

definition spec_port_allowed :: "range_node list \<Rightarrow> nat \<Rightarrow> bool" where
  "spec_port_allowed configured p =
     (configured = [] \<or>
      list_ex (\<lambda>node. case node of
                 Not_scalar \<Rightarrow> False
               | Single r \<Rightarrow> parsed r \<le> 65535 \<and> p = parsed r
               | Dashed r1 r2 \<Rightarrow>
                   parsed r1 \<le> parsed r2 \<and> parsed r2 \<le> 65535 \<and> parsed r1 \<le> p \<and> p \<le> parsed r2)
        configured)"

section \<open>Properties of the metric identifiers\<close>

lemma GEN_METRICID3_or:
  "GEN_METRICID3 c v = push_bit 32 (ucast c) OR (ucast v AND 0xFFFFFFFF)"
proof -
  have m: "(0xFFFFFFFF :: u64) = mask 32"
    by (simp add: mask_eq_exp_minus_1)
  have low: "(ucast v :: u64) AND mask 32 = ucast v"
    by (rule bit_eqI) (auto simp: bit_simps dest: bit_imp_le_length)
  have "push_bit 32 (ucast c :: u64) + ucast v = push_bit 32 (ucast c) OR ucast v"
    by (rule disjunctive_add_eq_or, rule bit_eqI)
       (auto simp: bit_simps dest: bit_imp_le_length)
  with low show ?thesis
    by (simp add: GEN_METRICID3_def m)
qed

lemma GEN_METRICID3_class:
  "drop_bit 32 (GEN_METRICID3 c v) = ucast c"
  unfolding GEN_METRICID3_or
  by (rule bit_eqI)
     (auto simp: bit_simps mask_eq_exp_minus_1[symmetric] dest: bit_imp_le_length)

lemma take_bit_32_shifted_sum:
  "take_bit 32 (push_bit 32 c + v) = take_bit 32 (v :: u64)"
proof -
  have d: "(4294967296::nat) dvd 18446744073709551616"
    by simp
  have "(unat c * 4294967296 mod 18446744073709551616 + unat v) mod 4294967296
        = (unat c * 4294967296 mod 18446744073709551616 mod 4294967296 + unat v) mod 4294967296"
    by (simp add: mod_add_left_eq)
  also have "\<dots> = (unat c * 4294967296 mod 4294967296 + unat v) mod 4294967296"
    by (simp only: mod_mod_cancel[OF d])
  also have "\<dots> = unat v mod 4294967296"
    by simp
  finally have "unat (take_bit 32 (push_bit 32 c + v)) = unat (take_bit 32 v)"
    by (simp add: unsigned_take_bit_eq unat_word_ariths take_bit_eq_mod push_bit_eq_mult
                  mod_mod_cancel)
  then show ?thesis
    by (simp only: word_unat_eq_iff)
qed

lemma GEN_METRICID_low_bits:
  "GEN_METRICID c v = v AND 0xFFFFFFFF"
proof -
  have m: "(0xFFFFFFFF :: u64) = mask 32"
    by (simp add: mask_eq_exp_minus_1)
  show ?thesis
    unfolding GEN_METRICID_def m
    by (simp add: take_bit_eq_mask[symmetric] take_bit_32_shifted_sum)
qed

text \<open>
  Claim C3. The key of class \<open>c\<close> and value \<open>v\<close> should be \<open>(c << 32) | (v & 0xFFFFFFFF)\<close>,
  with the class in its upper 32 bits. The macro of \<^verbatim>\<open>report_internal.h\<close> masks the whole
  sum: for the class 1 (\<^verbatim>\<open>CORSARO_METRIC_CLASS_MAXMIND_CONTINENT\<close>) and the value 5 it
  yields 5, whose upper 32 bits are 0 and not the class, while the expected key is
  \<open>0x100000005\<close>.
\<close>

theorem GEN_METRICID_drops_class:
  "GEN_METRICID 1 5 = 5
   \<and> drop_bit 32 (GEN_METRICID 1 5) = 0
   \<and> push_bit 32 (1 :: u64) OR (5 AND 0xFFFFFFFF) = 0x100000005
   \<and> GEN_METRICID 1 5 \<noteq> push_bit 32 1 OR (5 AND 0xFFFFFFFF)"
  by (simp add: GEN_METRICID_def)

section \<open>The tracker thread: control state\<close>

lemma process_msg_body_control:
  assumes "process_msg_body track s b = Some track'"
  shows "lastresultts track' = lastresultts track \<and> outstanding track' = outstanding track
         \<and> sourcethreads track' = sourcethreads track \<and> haltphase track' = haltphase track
         \<and> lastresult track' = lastresult track"
  using assms by (auto simp: process_msg_body_def split: if_splits)

lemma process_update_control:
  assumes "process_update track s bs = Some track'"
  shows "lastresultts track' = lastresultts track \<and> outstanding track' = outstanding track
         \<and> sourcethreads track' = sourcethreads track \<and> haltphase track' = haltphase track
         \<and> lastresult track' = lastresult track"
  using assms
proof (induction bs arbitrary: track)
  case Nil
  then show ?case by simp
next
  case (Cons b bs)
  then obtain t1 where 1: "process_msg_body track s b = Some t1"
    and 2: "process_update t1 s bs = Some track'"
    by (auto split: option.splits)
  from Cons.IH[OF 2] process_msg_body_control[OF 1] show ?case by simp
qed

lemma push_new_interval_ret:
  "push_new_interval outl ts s = Some (outl', c) \<Longrightarrow> c = 0"
  by (auto simp: push_new_interval_def split: if_splits)

lemma update_outstanding_ret:
  assumes "update_outstanding outl ts limit s = Some (outl', c)"
  shows "c = 0 \<or> c = ts"
  using assms
  by (auto simp: update_outstanding_def split: option.splits prod.splits bool.splits if_splits
           dest: push_new_interval_ret)

lemma handle_message_lastresultts:
  assumes "handle_message track msg = Some track'"
  shows "lastresultts track' = lastresultts track
         \<or> (msgtype msg = CORSARO_IP_MESSAGE_INTERVAL \<and> lastresultts track < timestamp msg
            \<and> lastresultts track' = timestamp msg)"
proof (cases "msgtype msg = CORSARO_IP_MESSAGE_HALT")
  case True
  with assms show ?thesis by (auto simp: handle_message_def split: if_splits)
next
  case nh: False
  show ?thesis
  proof (cases "msgtype msg = CORSARO_IP_MESSAGE_INTERVAL")
    case False
    with nh assms have "process_update track (sender msg) (update msg) = Some track'"
      by (simp add: handle_message_def)
    from process_update_control[OF this] show ?thesis by simp
  next
    case True
    show ?thesis
    proof (cases "timestamp msg = 0 \<or> timestamp msg \<le> lastresultts track")
      case True
      with nh \<open>msgtype msg = CORSARO_IP_MESSAGE_INTERVAL\<close> assms show ?thesis
        by (auto simp: handle_message_def split: if_splits)
    next
      case False
      then have lt: "lastresultts track < timestamp msg" by auto
      from False nh True assms obtain outl c where
        uo: "update_outstanding (outstanding track) (timestamp msg) (sourcethreads track) (sender msg) = Some (outl, c)"
        by (auto simp: handle_message_def split: option.splits)
      from update_outstanding_ret[OF uo] have c: "c = 0 \<or> c = timestamp msg" .
      from False nh True assms uo c lt show ?thesis
        by (auto simp: handle_message_def split: if_splits)
    qed
  qed
qed

lemma tracker_step_lastresultts:
  assumes "tracker_step track ev = Some track'"
  shows "lastresultts track' = lastresultts track
         \<or> (\<exists>msg. ev = Message msg \<and> msgtype msg = CORSARO_IP_MESSAGE_INTERVAL
              \<and> lastresultts track < timestamp msg \<and> lastresultts track' = timestamp msg)"
  using assms handle_message_lastresultts
  by (cases ev) (auto simp: tracker_step_def)

lemma start_iptracker_mono:
  "start_iptracker track evs = Some track' \<Longrightarrow> lastresultts track \<le> lastresultts track'"
proof (induction evs arbitrary: track)
  case Nil
  then show ?case by simp
next
  case (Cons ev evs)
  show ?case
  proof (cases "haltphase track = 2")
    case True
    with Cons.prems show ?thesis by simp
  next
    case False
    with Cons.prems obtain t1 where 1: "tracker_step track ev = Some t1"
      and 2: "start_iptracker t1 evs = Some track'"
      by (auto split: option.splits)
    from tracker_step_lastresultts[OF 1] have "lastresultts track \<le> lastresultts t1"
      by auto
    with Cons.IH[OF 2] show ?thesis by simp
  qed
qed

lemma start_iptracker_halted:
  "haltphase track = 2 \<Longrightarrow> start_iptracker track evs = Some track"
  by (cases evs) auto

lemma start_iptracker_append:
  "start_iptracker track (xs @ ys) =
     (case start_iptracker track xs of None \<Rightarrow> None | Some t1 \<Rightarrow> start_iptracker t1 ys)"
proof (induction xs arbitrary: track)
  case Nil
  then show ?case by simp
next
  case (Cons x xs)
  then show ?case
    by (auto simp: start_iptracker_halted split: option.splits)
qed

lemmas tracker_eval =
  init_iptracker_def tracker_step_def handle_message_def update_outstanding_def
  push_new_interval_def mark_report_def CORSARO_IP_MESSAGE_INTERVAL_def
  CORSARO_IP_MESSAGE_HALT_def Let_def


text \<open>
  Claim C6. Along a run of the tracker thread the timestamp of the last complete tally
  never decreases: between any two points of a run it is non-decreasing; an interval-end
  message whose timestamp is zero or not above \<open>lastresultts\<close> leaves the whole tracker
  state as it is; and a step that changes \<open>lastresultts\<close> makes it strictly larger.
\<close>

theorem lastresultts_monotonic:
  assumes "start_iptracker track evs1 = Some t1"
    and "start_iptracker track (evs1 @ evs2) = Some t2"
  shows "lastresultts t1 \<le> lastresultts t2
         \<and> (\<forall>msg. msgtype msg = CORSARO_IP_MESSAGE_INTERVAL
                  \<and> (timestamp msg = 0 \<or> timestamp msg \<le> lastresultts t1)
               \<longrightarrow> handle_message t1 msg = Some t1)
         \<and> (\<forall>ev t'. tracker_step t1 ev = Some t' \<and> lastresultts t' \<noteq> lastresultts t1
               \<longrightarrow> lastresultts t1 < lastresultts t')"
proof -
  from assms have "start_iptracker t1 evs2 = Some t2"
    by (simp add: start_iptracker_append)
  then have "lastresultts t1 \<le> lastresultts t2"
    by (rule start_iptracker_mono)
  moreover have "\<forall>msg. msgtype msg = CORSARO_IP_MESSAGE_INTERVAL
                  \<and> (timestamp msg = 0 \<or> timestamp msg \<le> lastresultts t1)
               \<longrightarrow> handle_message t1 msg = Some t1"
    by (auto simp: handle_message_def CORSARO_IP_MESSAGE_INTERVAL_def CORSARO_IP_MESSAGE_HALT_def)
  moreover have "\<forall>ev t'. tracker_step t1 ev = Some t' \<and> lastresultts t' \<noteq> lastresultts t1
               \<longrightarrow> lastresultts t1 < lastresultts t'"
    by (auto dest!: tracker_step_lastresultts)
  ultimately show ?thesis by blast
qed


text \<open>
  A run with two processing threads: after the first interval end for 100 the timestamp
  is still 0, after the second it is 100.
\<close>

theorem lastresultts_monotonic_witness:
  "\<exists>t1 t2.
     start_iptracker (init_iptracker 2)
       [Message \<lparr>msgtype = 1, sender = 0, timestamp = 100, update = []\<rparr>] = Some t1
     \<and> start_iptracker (init_iptracker 2)
         ([Message \<lparr>msgtype = 1, sender = 0, timestamp = 100, update = []\<rparr>]
          @ [Message \<lparr>msgtype = 1, sender = 1, timestamp = 100, update = []\<rparr>]) = Some t2
     \<and> lastresultts t1 = 0 \<and> lastresultts t2 = 100
     \<and> lastresultts t1 \<le> lastresultts t2"
proof -
  let ?m0 = "\<lparr>msgtype = 1, sender = 0, timestamp = 100, update = []\<rparr>"
  let ?m1 = "\<lparr>msgtype = 1, sender = 1, timestamp = 100, update = []\<rparr>"
  obtain t1 where r1: "start_iptracker (init_iptracker 2) [Message ?m0] = Some t1"
    and l1: "lastresultts t1 = 0"
    by (simp add: tracker_eval)
  obtain t2 where r2: "start_iptracker (init_iptracker 2) ([Message ?m0] @ [Message ?m1]) = Some t2"
    and l2: "lastresultts t2 = 100"
    by (simp add: tracker_eval)
  from lastresultts_monotonic[OF r1 r2] r1 r2 l1 l2 show ?thesis
    by blast
qed


section \<open>Routing of update messages\<close>

lemma sender_in_outstanding_iff:
  "sender_in_outstanding outl s \<longleftrightarrow> (\<exists>out \<in> set outl. reports_recvd out s \<noteq> 0)"
  by (induction outl) auto

lemma use_next_maps_iff:
  "use_next_maps track s \<longleftrightarrow>
     (outstanding track \<noteq> [] \<and> (\<exists>out \<in> set (outstanding track). reports_recvd out s \<noteq> 0))"
  by (auto simp: use_next_maps_def sender_in_outstanding_iff)

lemma process_update_next:
  assumes "use_next_maps track s"
  shows "process_update track s bs =
           map_option (\<lambda>(kn, tl). track\<lparr>knownips_next := kn, nextresult := tl\<rparr>)
             (apply_msg_bodies (knownips_next track, nextresult track) bs)"
  using assms
proof (induction bs arbitrary: track)
  case Nil
  then show ?case by simp
next
  case (Cons b bs)
  show ?case
  proof (cases "apply_msg_body (knownips_next track, nextresult track) b")
    case None
    with Cons.prems show ?thesis by (simp add: process_msg_body_def)
  next
    case (Some maps')
    obtain kn tl where m: "maps' = (kn, tl)" by (cases maps')
    let ?t1 = "track\<lparr>knownips_next := kn, nextresult := tl\<rparr>"
    have 1: "process_msg_body track s b = Some ?t1"
      using Cons.prems Some m by (simp add: process_msg_body_def)
    have 2: "use_next_maps ?t1 s"
      using Cons.prems by (auto simp: use_next_maps_def split: if_splits)
    show ?thesis
      using Cons.IH[OF 2] 1 Some m
      by (cases "apply_msg_bodies (kn, tl) bs") auto
  qed
qed

lemma process_update_curr:
  assumes "\<not> use_next_maps track s"
  shows "process_update track s bs =
           map_option (\<lambda>(kn, tl). track\<lparr>knownips := kn, currentresult := tl\<rparr>)
             (apply_msg_bodies (knownips track, currentresult track) bs)"
  using assms
proof (induction bs arbitrary: track)
  case Nil
  then show ?case by simp
next
  case (Cons b bs)
  show ?case
  proof (cases "apply_msg_body (knownips track, currentresult track) b")
    case None
    with Cons.prems show ?thesis by (simp add: process_msg_body_def)
  next
    case (Some maps')
    obtain kn tl where m: "maps' = (kn, tl)" by (cases maps')
    let ?t1 = "track\<lparr>knownips := kn, currentresult := tl\<rparr>"
    have 1: "process_msg_body track s b = Some ?t1"
      using Cons.prems Some m by (simp add: process_msg_body_def)
    have 2: "\<not> use_next_maps ?t1 s"
      using Cons.prems by (auto simp: use_next_maps_def split: if_splits)
    show ?thesis
      using Cons.IH[OF 2] 1 Some m
      by (cases "apply_msg_bodies (kn, tl) bs") auto
  qed
qed


text \<open>
  The update branch of the loop, which only a message whose type is neither of the two
  values of the enum takes. If the outstanding list is non-empty and some outstanding
  entry has the sender flagged, all bodies of the message are applied to the maps of the
  next interval and the current ones stay as they are; in every other case, an empty list
  included, they are applied to the maps of the current interval. An abort inside a body
  aborts the message.
\<close>

lemma update_branch_routing:
  assumes "msgtype msg \<noteq> CORSARO_IP_MESSAGE_HALT"
    and "msgtype msg \<noteq> CORSARO_IP_MESSAGE_INTERVAL"
  shows "handle_message track msg =
           (if outstanding track \<noteq> []
               \<and> (\<exists>out \<in> set (outstanding track). reports_recvd out (sender msg) \<noteq> 0)
            then map_option (\<lambda>(kn, tl). track\<lparr>knownips_next := kn, nextresult := tl\<rparr>)
                   (apply_msg_bodies (knownips_next track, nextresult track) (update msg))
            else map_option (\<lambda>(kn, tl). track\<lparr>knownips := kn, currentresult := tl\<rparr>)
                   (apply_msg_bodies (knownips track, currentresult track) (update msg)))"
  using assms process_update_next[of track "sender msg" "update msg"]
    process_update_curr[of track "sender msg" "update msg"]
  by (simp add: handle_message_def use_next_maps_iff)

text \<open>
  Sender 0 has ended interval 100; a message of type 2 from it with one update is tallied
  in \<open>nextresult\<close>, and \<open>currentresult\<close> stays empty.
\<close>

lemma update_branch_routing_example:
  "\<exists>t'. handle_message
       \<lparr>lastresultts = 0, sourcethreads = 2, haltphase = 0,
        knownips = Map.empty, knownips_next = Map.empty,
        lastresult = None, currentresult = [], nextresult = [],
        outstanding = [\<lparr>interval_ts = 100, reports_recvd = (\<lambda>_. 0)(0 := 1), reports_total = 1\<rparr>]\<rparr>
       \<lparr>msgtype = 2, sender = 0, timestamp = 0,
        update = [\<lparr>body_ipaddr = 1, issrc = 1, tags = [0], body_size = 40\<rparr>]\<rparr> = Some t'
     \<and> currentresult t' = []
     \<and> map (\<lambda>(k, m). (k, packets m, bytes m, srcips m)) (nextresult t') = [(0, 1, 40, 1)]"
proof -
  let ?track = "\<lparr>lastresultts = 0, sourcethreads = 2, haltphase = 0,
        knownips = Map.empty, knownips_next = Map.empty,
        lastresult = None, currentresult = [], nextresult = [],
        outstanding = [\<lparr>interval_ts = 100, reports_recvd = (\<lambda>_. 0)(0 := 1), reports_total = 1\<rparr>]\<rparr>"
  let ?msg = "\<lparr>msgtype = 2, sender = 0, timestamp = 0,
        update = [\<lparr>body_ipaddr = 1, issrc = 1, tags = [0], body_size = 40\<rparr>]\<rparr>"
  have 1: "msgtype ?msg \<noteq> CORSARO_IP_MESSAGE_HALT" 
    and 2: "msgtype ?msg \<noteq> CORSARO_IP_MESSAGE_INTERVAL"
    by (simp_all add: CORSARO_IP_MESSAGE_HALT_def CORSARO_IP_MESSAGE_INTERVAL_def)
  show ?thesis
    unfolding update_branch_routing[OF 1 2, of ?track]
    by (simp add: apply_msg_body_def update_iphash_def update_knownip_metric_def
        update_metric_array_def mark_array_slot_def METRIC_ARRAY_SIZE_def Let_def)
qed

section \<open>Completion of an interval\<close>

lemma card_less_u8: "card {s :: u8. s < n} = unat n"
proof -
  have "unat ` {s :: u8. s < n} = {0..<unat n}"
  proof (rule set_eqI, rule iffI)
    fix k assume "k \<in> unat ` {s :: u8. s < n}"
    then show "k \<in> {0..<unat n}" by (auto simp: word_less_nat_alt)
  next
    fix k assume k: "k \<in> {0..<unat n}"
    have "unat n < 256" using unsigned_less[of n] by simp
    with k have "unat (of_nat k :: u8) = k" by (simp add: unat_of_nat)
    moreover from this k have "(of_nat k :: u8) < n" by (simp add: word_less_nat_alt)
    ultimately show "k \<in> unat ` {s :: u8. s < n}" by (metis (mono_tags) image_eqI mem_Collect_eq)
  qed
  moreover have "inj_on unat {s :: u8. s < n}" by (auto simp: inj_on_def word_unat_eq_iff)
  ultimately show ?thesis by (metis card_image card_atLeastLessThan diff_zero)
qed

lemma interval_end_received_append:
  "interval_end_received evs T s \<Longrightarrow> interval_end_received (evs @ evs') T s"
  by (auto simp: interval_end_received_def list_ex_iff)

lemma out_inv_append: "out_inv n evs out \<Longrightarrow> out_inv n (evs @ evs') out"
  by (auto simp: out_inv_def interval_end_received_append)

lemma out_inv_complete:
  assumes "out_inv n evs out" and "reports_total out = n"
  shows "\<forall>s. s < n \<longrightarrow> interval_end_received evs (interval_ts out) s"
proof -
  let ?R = "{s. reports_recvd out s \<noteq> 0}"
  from assms have sub: "?R \<subseteq> {s. s < n}" and c: "card ?R = unat n"
    by (auto simp: out_inv_def)
  have "?R = {s. s < n}"
    by (rule card_subset_eq[OF _ sub]) (simp_all add: c card_less_u8)
  with assms(1) show ?thesis by (auto simp: out_inv_def)
qed

lemma mark_report_inv:
  assumes inv: "out_inv n evs out" and s: "s < n"
    and r: "interval_end_received evs (interval_ts out) s"
  shows "out_inv n evs (mark_report out s)"
proof (cases "reports_recvd out s = 0")
  case False
  with inv show ?thesis by (simp add: mark_report_def)
next
  case True
  let ?R = "{x. reports_recvd out x \<noteq> 0}"
  have new: "{x. ((reports_recvd out)(s := 1)) x \<noteq> 0} = insert s ?R"
    by auto
  from inv have sub: "?R \<subseteq> {x. x < n} - {s}" using True by (auto simp: out_inv_def)
  have "card ?R \<le> card ({x. x < n} - {s})"
    by (rule card_mono[OF _ sub]) simp
  also have "\<dots> = unat n - 1" using s by (simp add: card_less_u8)
  finally have lt: "card ?R < unat n" using s by (simp add: word_less_nat_alt) 
  have "unat n < 256" using unsigned_less[of n] by simp
  with lt inv have "unat (reports_total out) + 1 < 256" by (simp add: out_inv_def)
  then have u: "unat (reports_total out + 1) = unat (reports_total out) + 1"
    by (simp add: unat_word_ariths)
  have sn: "s \<notin> ?R" using True by simp
  have "card (insert s ?R) = card ?R + 1"
    using sn by simp
  with inv s r True u new show ?thesis
    by (auto simp: mark_report_def out_inv_def)
qed

lemma mark_report_ts: "interval_ts (mark_report out s) = interval_ts out"
  by (simp add: mark_report_def)

lemma scan_outstanding_inv:
  assumes "scan_outstanding outl ts n s = Some (outl', c)"
    and "\<forall>out \<in> set outl. out_inv n evs out"
    and "s < n" and "interval_end_received evs ts s"
  shows "(\<forall>out \<in> set outl'. out_inv n evs out)
         \<and> (c \<longrightarrow> (\<exists>out \<in> set outl'. interval_ts out = ts \<and> reports_total out = n))"
  using assms
proof (induction outl arbitrary: outl' c)
  case Nil
  then show ?case by simp
next
  case (Cons out rest)
  show ?case
  proof (cases "interval_ts out = ts")
    case True
    with Cons.prems have "outl' = mark_report out s # rest"
      and "c = (reports_total (mark_report out s) = n)"
      by (auto simp: Let_def)
    moreover have "out_inv n evs (mark_report out s)"
      using Cons.prems True by (auto intro: mark_report_inv)
    ultimately show ?thesis using Cons.prems True by (auto simp: mark_report_ts)
  next
    case False
    with Cons.prems obtain l where l: "scan_outstanding rest ts n s = Some (l, c)"
      and o: "outl' = out # l"
      by auto
    from Cons.IH[OF l] Cons.prems o show ?thesis by auto
  qed
qed

lemma pop_completed_subset: "set (pop_completed outl t) \<subseteq> set outl"
  by (induction outl) auto

lemma push_new_interval_inv:
  assumes "push_new_interval outl ts s = Some (outl', c)"
    and "\<forall>out \<in> set outl. out_inv n evs out"
    and "s < n" and "interval_end_received evs ts s"
  shows "\<forall>out \<in> set outl'. out_inv n evs out"
proof -
  have "{x. ((\<lambda>_. 0 :: u8)(s := 1)) x \<noteq> 0} = {s}" by auto
  then have "out_inv n evs \<lparr>interval_ts = ts, reports_recvd = (\<lambda>_. 0)(s := 1), reports_total = 1\<rparr>"
    using assms(3,4) by (auto simp: out_inv_def)
  with assms show ?thesis
    by (auto simp: push_new_interval_def split: if_splits)
qed

lemma update_outstanding_inv:
  assumes uo: "update_outstanding outl ts n s = Some (outl', c)"
    and inv: "\<forall>out \<in> set outl. out_inv n evs out"
    and s: "s < n" and r: "interval_end_received evs ts s"
  shows "(\<forall>out \<in> set outl'. out_inv n evs out)
         \<and> (c \<noteq> 0 \<longrightarrow> (\<forall>x. x < n \<longrightarrow> interval_end_received evs ts x))"
proof (cases "scan_outstanding outl ts n s")
  case None
  with uo have p: "push_new_interval outl ts s = Some (outl', c)"
    by (simp add: update_outstanding_def)
  from push_new_interval_inv[OF p inv s r] push_new_interval_ret[OF p] show ?thesis
    by simp
next
  case (Some res)
  obtain l b where res: "res = (l, b)" by (cases res)
  from scan_outstanding_inv[OF Some[unfolded res] inv s r]
  have li: "\<forall>out \<in> set l. out_inv n evs out"
    and lc: "b \<longrightarrow> (\<exists>out \<in> set l. interval_ts out = ts \<and> reports_total out = n)"
    by auto
  show ?thesis
  proof (cases b)
    case False
    with uo Some res li show ?thesis by (simp add: update_outstanding_def)
  next
    case True
    with lc obtain out where o: "out \<in> set l" "interval_ts out = ts" "reports_total out = n"
      by auto
    with li have "out_inv n evs out" by simp
    from out_inv_complete[OF this o(3)] o(2)
    have all: "\<forall>x. x < n \<longrightarrow> interval_end_received evs ts x" by simp
    show ?thesis
    proof (cases "ts > 0")
      case gt: True
      with uo Some res True have "outl' = pop_completed l ts"
        by (auto simp: update_outstanding_def)
      with li pop_completed_subset[of l ts] all show ?thesis by auto
    next
      case False
      with uo Some res True have p: "push_new_interval l ts s = Some (outl', c)"
        by (simp add: update_outstanding_def)
      from push_new_interval_inv[OF p li s r] all show ?thesis by simp
    qed
  qed
qed

lemma track_inv_append: "track_inv n evs track \<Longrightarrow> track_inv n (evs @ evs') track"
  by (auto simp: track_inv_def out_inv_append)

lemma handle_message_inv:
  assumes inv: "track_inv n evs track"
    and sc: "msgtype msg \<noteq> CORSARO_IP_MESSAGE_INTERVAL \<or> sender msg < n"
    and st: "handle_message track msg = Some track'"
  shows "track_inv n (evs @ [Message msg]) track'
         \<and> (lastresultts track' \<noteq> lastresultts track \<longrightarrow>
              (\<forall>s. s < n \<longrightarrow> interval_end_received (evs @ [Message msg]) (lastresultts track') s)
              \<and> lastresult track' = Some (currentresult track))"
proof -
  let ?evs = "evs @ [Message msg]"
  from inv have inv': "track_inv n ?evs track" by (rule track_inv_append)
  show ?thesis
  proof (cases "msgtype msg = CORSARO_IP_MESSAGE_HALT")
    case True
    with st inv' show ?thesis
      by (auto simp: handle_message_def track_inv_def split: if_splits)
  next
    case nh: False
    show ?thesis
    proof (cases "msgtype msg = CORSARO_IP_MESSAGE_INTERVAL")
      case False
      with nh st have "process_update track (sender msg) (update msg) = Some track'"
        by (simp add: handle_message_def)
      from process_update_control[OF this] inv' show ?thesis
        by (simp add: track_inv_def)
    next
      case int: True
      show ?thesis
      proof (cases "timestamp msg = 0 \<or> timestamp msg \<le> lastresultts track")
        case True
        with nh int st have "track' = track"
          by (auto simp: handle_message_def split: if_splits)
        with inv' show ?thesis by simp
      next
        case False
        with nh int st obtain outl c where
          uo: "update_outstanding (outstanding track) (timestamp msg) (sourcethreads track)
                 (sender msg) = Some (outl, c)"
          by (auto simp: handle_message_def split: option.splits)
        from inv' have n: "sourcethreads track = n"
          and oi: "\<forall>out \<in> set (outstanding track). out_inv n ?evs out"
          by (auto simp: track_inv_def)
        from sc int have s: "sender msg < n" by simp
        have r: "interval_end_received ?evs (timestamp msg) (sender msg)"
          using int by (simp add: interval_end_received_def is_interval_end_def)
        from update_outstanding_inv[OF uo[unfolded n] oi s r]
        have li: "\<forall>out \<in> set outl. out_inv n ?evs out"
          and all: "c \<noteq> 0 \<longrightarrow> (\<forall>x. x < n \<longrightarrow> interval_end_received ?evs (timestamp msg) x)"
          by auto
        from update_outstanding_ret[OF uo] have c: "c = 0 \<or> c = timestamp msg" .
        show ?thesis
        proof (cases "c = 0")
          case True
          with False nh int st uo have "track' = track\<lparr>outstanding := outl\<rparr>"
            by (auto simp: handle_message_def)
          with li n show ?thesis by (simp add: track_inv_def)
        next
          case cn: False
          with c have ct: "c = timestamp msg" by simp
          from False nh int st uo cn have lr: "lastresult track = None"
            by (auto simp: handle_message_def split: if_splits)
          with False nh int st uo cn have
            t': "outstanding track' = outl" "sourcethreads track' = sourcethreads track"
                "lastresultts track' = c" "lastresult track' = Some (currentresult track)"
            by (auto simp: handle_message_def)
          with li n all cn ct show ?thesis by (simp add: track_inv_def)
        qed
      qed
    qed
  qed
qed

lemma tracker_step_inv:
  assumes inv: "track_inv n evs track" and sc: "senders_configured n [ev]"
    and st: "tracker_step track ev = Some track'"
  shows "track_inv n (evs @ [ev]) track'
         \<and> (lastresultts track' \<noteq> lastresultts track \<longrightarrow>
              (\<forall>s. s < n \<longrightarrow> interval_end_received (evs @ [ev]) (lastresultts track') s)
              \<and> lastresult track' = Some (currentresult track))"
proof (cases ev)
  case (Message msg)
  with sc have "msgtype msg \<noteq> CORSARO_IP_MESSAGE_INTERVAL \<or> sender msg < n"
    by (simp add: senders_configured_def)
  from handle_message_inv[OF inv this] st Message show ?thesis
    by (simp add: tracker_step_def)
next
  case Result_collected
  with st have "track' = track\<lparr>lastresult := None\<rparr>" by (auto simp: tracker_step_def)
  with track_inv_append[OF inv, of "[ev]"] show ?thesis by (simp add: track_inv_def)
qed

lemma start_iptracker_snoc:
  "start_iptracker track (evs @ [ev]) =
     (case start_iptracker track evs of
        None \<Rightarrow> None
      | Some t1 \<Rightarrow> if haltphase t1 = 2 then Some t1 else tracker_step t1 ev)"
  by (auto simp: start_iptracker_append split: option.splits)

lemma senders_configured_append:
  "senders_configured n (xs @ ys) \<longleftrightarrow> senders_configured n xs \<and> senders_configured n ys"
  by (simp add: senders_configured_def)

lemma init_iptracker_inv: "track_inv n [] (init_iptracker n)"
  by (simp add: track_inv_def init_iptracker_def)

lemma reachable_inv:
  "start_iptracker (init_iptracker n) evs = Some track \<Longrightarrow> senders_configured n evs
     \<Longrightarrow> track_inv n evs track"
proof (induction evs arbitrary: track rule: rev_induct)
  case Nil
  then show ?case using init_iptracker_inv[of n] by auto
next
  case (snoc ev evs)
  from snoc.prems(1) obtain t1 where 1: "start_iptracker (init_iptracker n) evs = Some t1"
    and 2: "(if haltphase t1 = 2 then Some t1 else tracker_step t1 ev) = Some track"
    by (auto simp: start_iptracker_snoc split: option.splits)
  from snoc.prems(2) have sc: "senders_configured n evs" "senders_configured n [ev]"
    by (simp_all add: senders_configured_append)
  from snoc.IH[OF 1 sc(1)] have inv: "track_inv n evs t1" .
  show ?case
  proof (cases "haltphase t1 = 2")
    case True
    with 2 inv show ?thesis by (auto intro: track_inv_append)
  next
    case False
    with 2 have "tracker_step t1 ev = Some track" by simp
    from tracker_step_inv[OF inv sc(2) this] show ?thesis by simp
  qed
qed


text \<open>
  Claim C4. Take a run of a tracker with \<open>n\<close> configured processing threads, all of
  whose interval-end messages come from thread IDs below \<open>n\<close>. If the last step of the run
  changes \<open>lastresultts\<close> to \<open>T\<close>, then an interval-end message for \<open>T\<close> from every
  thread ID below \<open>n\<close> is among the events received so far, the tally published in
  \<open>lastresult\<close> is the one that was current, and in every outstanding entry the total is
  the number of distinct senders flagged, so a sender is counted once.
\<close>

theorem publish_after_all_interval_ends:
  assumes sc: "senders_configured n (evs @ [ev])"
    and r1: "start_iptracker (init_iptracker n) evs = Some t1"
    and r2: "start_iptracker (init_iptracker n) (evs @ [ev]) = Some t2"
    and ch: "lastresultts t2 \<noteq> lastresultts t1"
  shows "(\<forall>s. s < n \<longrightarrow> interval_end_received (evs @ [ev]) (lastresultts t2) s)
         \<and> lastresult t2 = Some (currentresult t1)
         \<and> (\<forall>out \<in> set (outstanding t2).
               unat (reports_total out) = card {s. reports_recvd out s \<noteq> 0})"
proof -
  from sc have sc': "senders_configured n evs" "senders_configured n [ev]"
    by (simp_all add: senders_configured_append)
  from reachable_inv[OF r1 sc'(1)] have inv: "track_inv n evs t1" .
  from r1 r2 ch have st: "tracker_step t1 ev = Some t2"
    by (auto simp: start_iptracker_snoc split: if_splits)
  from tracker_step_inv[OF inv sc'(2) st] ch show ?thesis
    by (auto simp: track_inv_def out_inv_def)
qed

text \<open>Two threads end interval 100 one after the other; the second end publishes it.\<close>

theorem publish_after_all_interval_ends_witness:
  "senders_configured 2
     ([Message \<lparr>msgtype = 1, sender = 0, timestamp = 100, update = []\<rparr>]
      @ [Message \<lparr>msgtype = 1, sender = 1, timestamp = 100, update = []\<rparr>])
   \<and> (\<exists>t1 t2.
     start_iptracker (init_iptracker 2)
       [Message \<lparr>msgtype = 1, sender = 0, timestamp = 100, update = []\<rparr>] = Some t1
     \<and> start_iptracker (init_iptracker 2)
         ([Message \<lparr>msgtype = 1, sender = 0, timestamp = 100, update = []\<rparr>]
          @ [Message \<lparr>msgtype = 1, sender = 1, timestamp = 100, update = []\<rparr>]) = Some t2
     \<and> lastresultts t1 = 0 \<and> lastresultts t2 = 100
     \<and> interval_end_received
          ([Message \<lparr>msgtype = 1, sender = 0, timestamp = 100, update = []\<rparr>]
           @ [Message \<lparr>msgtype = 1, sender = 1, timestamp = 100, update = []\<rparr>]) 100 0
     \<and> interval_end_received
          ([Message \<lparr>msgtype = 1, sender = 0, timestamp = 100, update = []\<rparr>]
           @ [Message \<lparr>msgtype = 1, sender = 1, timestamp = 100, update = []\<rparr>]) 100 1
     \<and> lastresult t2 = Some (currentresult t1))"
proof -
  let ?m0 = "\<lparr>msgtype = 1, sender = 0, timestamp = 100, update = []\<rparr>"
  let ?m1 = "\<lparr>msgtype = 1, sender = 1, timestamp = 100, update = []\<rparr>"
  have sc: "senders_configured 2 ([Message ?m0] @ [Message ?m1])"
    by (simp add: senders_configured_def)
  obtain t1 where r1: "start_iptracker (init_iptracker 2) [Message ?m0] = Some t1"
    and l1: "lastresultts t1 = 0"
    by (simp add: tracker_eval)
  obtain t2 where r2: "start_iptracker (init_iptracker 2) ([Message ?m0] @ [Message ?m1]) = Some t2"
    and l2: "lastresultts t2 = 100"
    by (simp add: tracker_eval)
  have ch: "lastresultts t2 \<noteq> lastresultts t1" using l1 l2 by simp
  have "(0::u8) < 2" "(1::u8) < 2" by simp_all
  with publish_after_all_interval_ends[OF sc r1 r2 ch] sc r1 r2 l1 l2 show ?thesis
    by (metis (no_types, lifting))
qed

section \<open>Unique source and destination addresses\<close>

lemma and_1_iff: "(v :: u8) AND 0x01 = 0 \<longleftrightarrow> \<not> bit v 0"
  using and_exp_eq_0_iff_not_bit[of v 0] by simp

lemma and_2_iff: "(v :: u8) AND 0x02 = 0 \<longleftrightarrow> \<not> bit v 1"
  using and_exp_eq_0_iff_not_bit[of v 1] by simp

lemma or_1_eq: "(v :: u8) OR 0x01 = set_bit 0 v"
  by (simp add: set_bit_eq_or)

lemma or_2_eq: "(v :: u8) OR 0x02 = set_bit 1 v"
  by (simp add: set_bit_eq_or)

lemma set_bit_absorb: "bit (v :: u8) n \<Longrightarrow> set_bit n v = v"
  by (rule bit_eqI) (auto simp: bit_simps)

lemma update_metric_map_eq:
  "update_metric_map ih mid src m =
     (let v = (case metricsseen ih mid of None \<Rightarrow> 0 | Some v \<Rightarrow> v);
          cnt = (case metricsseen ih mid of None \<Rightarrow> metriccount ih + 1 | Some _ \<Rightarrow> metriccount ih)
      in (ih\<lparr>metricsseen := (metricsseen ih)(mid \<mapsto> set_bit (role_bit src) v), metriccount := cnt\<rparr>,
          if bit v (role_bit src) then m else count_role src m))"
proof (cases "metricsseen ih mid")
  case None
  then show ?thesis
    by (auto simp: update_metric_map_def Let_def role_bit_def count_role_def and_1_iff and_2_iff
        or_1_eq or_2_eq)
next
  case (Some v)
  have e: "ih\<lparr>metricsseen := (metricsseen ih)(mid \<mapsto> v), metriccount := metriccount ih\<rparr> = ih"
    using Some by (simp add: fun_upd_idem)
  show ?thesis using Some e
    by (auto simp: update_metric_map_def Let_def role_bit_def count_role_def and_1_iff and_2_iff
        or_1_eq or_2_eq set_bit_absorb)
qed

lemma mark_array_slot_eq:
  "mark_array_slot ih i src m =
     (let found = firstmetrics ih ! i; v = metval found
      in (if bit v (role_bit src) then ih
          else ih\<lparr>firstmetrics := (firstmetrics ih)[i := found\<lparr>metval := set_bit (role_bit src) v\<rparr>]\<rparr>,
          if bit v (role_bit src) then m else count_role src m))"
  by (auto simp: mark_array_slot_def Let_def role_bit_def count_role_def and_1_iff and_2_iff
        or_1_eq or_2_eq)

lemma find_metric_None:
  "find_metric es mid = None \<longleftrightarrow> mid \<notin> sm_metricid ` set es"
  by (induction es) auto

lemma find_metric_Some:
  "find_metric es mid = Some i \<Longrightarrow> i < length es \<and> sm_metricid (es ! i) = mid"
proof (induction es arbitrary: i)
  case Nil
  then show ?case by simp
next
  case (Cons e es)
  then show ?case by (auto split: if_splits)
qed

lemma map_of_list_update:
  "distinct (map fst xs) \<Longrightarrow> i < length xs \<Longrightarrow> fst (xs ! i) = k
     \<Longrightarrow> map_of (xs[i := (k, v)]) = (map_of xs)(k \<mapsto> v)"
proof (induction xs arbitrary: i)
  case Nil
  then show ?case by simp
next
  case (Cons x xs)
  show ?case
  proof (cases i)
    case 0
    with Cons.prems show ?thesis by (cases x) auto
  next
    case (Suc j)
    with Cons.prems have "map_of (xs[j := (k, v)]) = (map_of xs)(k \<mapsto> v)"
      by (intro Cons.IH) auto
    moreover from Cons.prems Suc have "fst x \<noteq> k"
      by (metis Suc_less_eq distinct.simps(2) length_Cons list.simps(9) nth_Cons_Suc nth_map nth_mem length_map)
    ultimately show ?thesis using Suc by (cases x) (auto simp: fun_upd_twist)
  qed
qed

lemma map_of_nth_distinct:
  "distinct (map fst xs) \<Longrightarrow> i < length xs \<Longrightarrow> map_of xs (fst (xs ! i)) = Some (snd (xs ! i))"
  by (metis map_of_eq_Some_iff nth_mem prod.collapse)

lemma fold_put_distinct:
  "distinct (map sm_metricid es)
     \<Longrightarrow> fold (\<lambda>e ms. ms(sm_metricid e \<mapsto> metval e)) es m0
         = m0 ++ map_of (map (\<lambda>e. (sm_metricid e, metval e)) es)"
proof (induction es arbitrary: m0)
  case Nil
  then show ?case by simp
next
  case (Cons e es)
  have "sm_metricid e \<notin> dom (map_of (map (\<lambda>e. (sm_metricid e, metval e)) es))"
    using Cons.prems by (auto simp: dom_map_of_conv_image_fst image_image)
  then have n: "map_of (map (\<lambda>e. (sm_metricid e, metval e)) es) (sm_metricid e) = None"
    by blast
  show ?case
    using Cons n
    by (auto simp: map_add_def fun_eq_iff split: option.splits)
qed

lemma slot_pairs_keys: "map fst (slot_pairs ih) = map sm_metricid (take (unat (metriccount ih)) (firstmetrics ih))"
  by (simp add: slot_pairs_def comp_def)

lemma unat_suc_u32: "unat (c :: u32) + 1 < 2 ^ 32 \<Longrightarrow> unat (c + 1) = unat c + 1"
  by (simp add: unat_word_ariths)

lemma record_metric_map_mode:
  assumes wf: "wf_iphash ih" and mode: "\<not> unat (metriccount ih) \<le> METRIC_ARRAY_SIZE"
    and nb: "metric_bits ih mid = None \<longrightarrow> unat (metriccount ih) + 1 < 2 ^ 32"
    and res: "update_metric_map ih mid src m = (ih', m')"
  shows "wf_iphash ih'
         \<and> metric_bits ih' = (metric_bits ih)(mid \<mapsto> set_bit (role_bit src) (seen_bits ih mid))
         \<and> m' = (if bit (seen_bits ih mid) (role_bit src) then m else count_role src m)
         \<and> ipaddr ih' = ipaddr ih"
proof -
  have mb: "metric_bits ih = metricsseen ih" using mode by (simp add: metric_bits_def)
  have card: "card (dom (metricsseen ih)) = unat (metriccount ih)"
    using wf mb by (simp add: wf_iphash_def)
  show ?thesis
  proof (cases "metricsseen ih mid")
    case None
    with nb mb have u: "unat (metriccount ih + 1) = unat (metriccount ih) + 1"
      by (simp add: unat_suc_u32)
    have ih': "ih' = ih\<lparr>metricsseen := (metricsseen ih)(mid \<mapsto> set_bit (role_bit src) 0),
                        metriccount := metriccount ih + 1\<rparr>"
      and m': "m' = count_role src m"
      using res None by (simp_all add: update_metric_map_eq)
    have mode': "\<not> unat (metriccount ih') \<le> METRIC_ARRAY_SIZE"
      using mode u ih' by simp
    have "card (dom ((metricsseen ih)(mid \<mapsto> set_bit (role_bit src) 0))) = card (dom (metricsseen ih)) + 1"
      using None by (simp add: domIff)
    with mode' ih' m' None mb card u show ?thesis
      by (simp add: wf_iphash_def metric_bits_def seen_bits_def)
  next
    case (Some v)
    have ih': "ih' = ih\<lparr>metricsseen := (metricsseen ih)(mid \<mapsto> set_bit (role_bit src) v)\<rparr>"
      and m': "m' = (if bit v (role_bit src) then m else count_role src m)"
      using res Some by (auto simp: update_metric_map_eq)
    have "dom ((metricsseen ih)(mid \<mapsto> set_bit (role_bit src) v)) = dom (metricsseen ih)"
      using Some by auto
    with mode ih' m' Some mb card show ?thesis
      by (simp add: wf_iphash_def metric_bits_def seen_bits_def)
  qed
qed

lemma record_metric_array_found:
  assumes wf: "wf_iphash ih" and mode: "unat (metriccount ih) \<le> METRIC_ARRAY_SIZE"
    and f: "find_metric (take (unat (metriccount ih)) (firstmetrics ih)) mid = Some i"
    and res: "mark_array_slot ih i src m = (ih', m')"
  shows "wf_iphash ih'
         \<and> metric_bits ih' = (metric_bits ih)(mid \<mapsto> set_bit (role_bit src) (seen_bits ih mid))
         \<and> m' = (if bit (seen_bits ih mid) (role_bit src) then m else count_role src m)
         \<and> ipaddr ih' = ipaddr ih"
proof -
  let ?cnt = "unat (metriccount ih)"
  let ?fm = "firstmetrics ih"
  let ?v = "metval (?fm ! i)"
  let ?sb = "set_bit (role_bit src) ?v"
  from wf mode have len: "length ?fm = METRIC_ARRAY_SIZE"
    and dist: "distinct (map fst (slot_pairs ih))"
    and empty: "metricsseen ih = Map.empty"
    and card: "card (dom (map_of (slot_pairs ih))) = ?cnt"
    by (auto simp: wf_iphash_def metric_bits_def)
  from find_metric_Some[OF f] mode len have i: "i < ?cnt" and k: "sm_metricid (?fm ! i) = mid"
    by auto
  have il: "i < length (slot_pairs ih)" using i mode len by (simp add: slot_pairs_def)
  have nth: "slot_pairs ih ! i = (mid, ?v)"
    using i k mode len by (simp add: slot_pairs_def)
  have mb: "metric_bits ih = map_of (slot_pairs ih)" using mode by (simp add: metric_bits_def)
  have look: "map_of (slot_pairs ih) mid = Some ?v"
    using map_of_nth_distinct[OF dist il] nth by simp
  then have sb: "seen_bits ih mid = ?v" by (simp add: seen_bits_def mb)
  show ?thesis
  proof (cases "bit ?v (role_bit src)")
    case True
    with res have "ih' = ih" "m' = m" by (simp_all add: mark_array_slot_eq Let_def)
    moreover have "(map_of (slot_pairs ih))(mid \<mapsto> ?sb) = map_of (slot_pairs ih)"
      using look True by (simp add: set_bit_absorb fun_upd_idem)
    ultimately show ?thesis using wf True sb mb by simp
  next
    case False
    with res have ih': "ih' = ih\<lparr>firstmetrics := ?fm[i := (?fm ! i)\<lparr>metval := ?sb\<rparr>]\<rparr>"
      and m': "m' = count_role src m"
      by (simp_all add: mark_array_slot_eq Let_def)
    have sp: "slot_pairs ih' = (slot_pairs ih)[i := (mid, ?sb)]"
      using k by (simp add: ih' slot_pairs_def take_update_swap map_update)
    have mo: "map_of (slot_pairs ih') = (map_of (slot_pairs ih))(mid \<mapsto> ?sb)"
      unfolding sp using map_of_list_update[OF dist il] nth by simp
    have keys: "map fst (slot_pairs ih') = map fst (slot_pairs ih)"
      unfolding sp using nth il by (simp add: map_update) (metis fst_conv list_update_id nth_map)
    have "dom ((map_of (slot_pairs ih))(mid \<mapsto> ?sb)) = dom (map_of (slot_pairs ih))"
      using look by auto
    with mo keys dist card len mode ih' m' False sb mb empty show ?thesis
      by (simp add: wf_iphash_def metric_bits_def)
  qed
qed

lemma record_metric_array_new:
  assumes wf: "wf_iphash ih" and mode: "unat (metriccount ih) < METRIC_ARRAY_SIZE"
    and f: "find_metric (take (unat (metriccount ih)) (firstmetrics ih)) mid = None"
    and res: "mark_array_slot
                (ih\<lparr>firstmetrics := (firstmetrics ih)[unat (metriccount ih) := \<lparr>sm_metricid = mid, metval = 0\<rparr>],
                    metriccount := metriccount ih + 1\<rparr>)
                (unat (metriccount ih)) src m = (ih', m')"
  shows "wf_iphash ih'
         \<and> metric_bits ih' = (metric_bits ih)(mid \<mapsto> set_bit (role_bit src) (seen_bits ih mid))
         \<and> m' = (if bit (seen_bits ih mid) (role_bit src) then m else count_role src m)
         \<and> ipaddr ih' = ipaddr ih"
proof -
  let ?cnt = "unat (metriccount ih)"
  let ?fm = "firstmetrics ih"
  let ?sb = "set_bit (role_bit src) (0 :: u8)"
  from wf mode have len: "length ?fm = METRIC_ARRAY_SIZE"
    and dist: "distinct (map fst (slot_pairs ih))"
    and empty: "metricsseen ih = Map.empty"
    and card: "card (dom (map_of (slot_pairs ih))) = ?cnt"
    by (auto simp: wf_iphash_def metric_bits_def)
  have u: "unat (metriccount ih + 1) = ?cnt + 1"
    using mode by (intro unat_suc_u32) (simp add: METRIC_ARRAY_SIZE_def)
  have mb: "metric_bits ih = map_of (slot_pairs ih)" using mode by (simp add: metric_bits_def)
  have nk: "mid \<notin> fst ` set (slot_pairs ih)"
    using f by (simp add: find_metric_None slot_pairs_def image_image)
  then have look: "map_of (slot_pairs ih) mid = None"
    by (simp add: map_of_eq_None_iff)
  then have sb: "seen_bits ih mid = 0" by (simp add: seen_bits_def mb)
  have ih': "ih' = ih\<lparr>firstmetrics := ?fm[?cnt := \<lparr>sm_metricid = mid, metval = ?sb\<rparr>],
                      metriccount := metriccount ih + 1\<rparr>"
    and m': "m' = count_role src m"
    using res mode len by (auto simp: mark_array_slot_eq Let_def)
  have tk: "take (Suc ?cnt) (?fm[?cnt := \<lparr>sm_metricid = mid, metval = ?sb\<rparr>])
              = take ?cnt ?fm @ [\<lparr>sm_metricid = mid, metval = ?sb\<rparr>]"
    using mode len by (simp add: take_Suc_conv_app_nth)
  have sp: "slot_pairs ih' = slot_pairs ih @ [(mid, ?sb)]"
    using tk u by (simp add: ih' slot_pairs_def)
  have mo: "map_of (slot_pairs ih') = (map_of (slot_pairs ih))(mid \<mapsto> ?sb)"
    unfolding sp using look by (auto simp: map_add_def fun_eq_iff split: option.splits)
  have d': "distinct (map fst (slot_pairs ih'))"
    unfolding sp using dist nk by simp
  have "card (dom ((map_of (slot_pairs ih))(mid \<mapsto> ?sb))) = card (dom (map_of (slot_pairs ih))) + 1"
    using look by (simp add: domIff)
  moreover have mode': "unat (metriccount ih') \<le> METRIC_ARRAY_SIZE"
    using u mode ih' by simp
  ultimately show ?thesis
    using mo d' card len ih' m' sb mb u empty
    by (simp add: wf_iphash_def metric_bits_def)
qed

lemma record_metric_promote:
  assumes wf: "wf_iphash ih" and mode: "unat (metriccount ih) = METRIC_ARRAY_SIZE"
    and f: "find_metric (take (unat (metriccount ih)) (firstmetrics ih)) mid = None"
    and res: "update_metric_map
                (ih\<lparr>metricsseen :=
                      fold (\<lambda>e ms. ms(sm_metricid e \<mapsto> metval e))
                        (take (unat (metriccount ih)) (firstmetrics ih)) (metricsseen ih)\<rparr>)
                mid src m = (ih', m')"
  shows "wf_iphash ih'
         \<and> metric_bits ih' = (metric_bits ih)(mid \<mapsto> set_bit (role_bit src) (seen_bits ih mid))
         \<and> m' = (if bit (seen_bits ih mid) (role_bit src) then m else count_role src m)
         \<and> ipaddr ih' = ipaddr ih"
proof -
  let ?cnt = "unat (metriccount ih)"
  let ?fm = "firstmetrics ih"
  let ?sb = "set_bit (role_bit src) (0 :: u8)"
  from wf mode have len: "length ?fm = METRIC_ARRAY_SIZE"
    and dist: "distinct (map fst (slot_pairs ih))"
    and empty: "metricsseen ih = Map.empty"
    and card: "card (dom (map_of (slot_pairs ih))) = ?cnt"
    by (auto simp: wf_iphash_def metric_bits_def)
  have u: "unat (metriccount ih + 1) = ?cnt + 1"
    using mode by (intro unat_suc_u32) (simp add: METRIC_ARRAY_SIZE_def)
  have mb: "metric_bits ih = map_of (slot_pairs ih)" using mode by (simp add: metric_bits_def)
  have nk: "mid \<notin> fst ` set (slot_pairs ih)"
    using f by (simp add: find_metric_None slot_pairs_def image_image)
  then have look: "map_of (slot_pairs ih) mid = None"
    by (simp add: map_of_eq_None_iff)
  then have sb: "seen_bits ih mid = 0" by (simp add: seen_bits_def mb)
  have fold: "fold (\<lambda>e ms. ms(sm_metricid e \<mapsto> metval e)) (take ?cnt ?fm) (metricsseen ih)
                = map_of (slot_pairs ih)"
    using fold_put_distinct[of "take ?cnt ?fm" "metricsseen ih"] dist empty
    by (simp add: slot_pairs_keys) (simp add: slot_pairs_def)
  have ih': "ih' = ih\<lparr>metricsseen := (map_of (slot_pairs ih))(mid \<mapsto> ?sb),
                      metriccount := metriccount ih + 1\<rparr>"
    and m': "m' = count_role src m"
    using res look unfolding fold by (simp_all add: update_metric_map_eq)
  have mode': "\<not> unat (metriccount ih') \<le> METRIC_ARRAY_SIZE"
    using u mode ih' by simp
  have "card (dom ((map_of (slot_pairs ih))(mid \<mapsto> ?sb))) = card (dom (map_of (slot_pairs ih))) + 1"
    using look by (simp add: domIff)
  with mode' show ?thesis
    using card ih' m' sb mb u
    by (simp add: wf_iphash_def metric_bits_def)
qed

lemma record_metric_spec:
  assumes wf: "wf_iphash ih"
    and nb: "metric_bits ih mid = None \<longrightarrow> unat (metriccount ih) + 1 < 2 ^ 32"
    and res: "(if unat (metriccount ih) \<le> METRIC_ARRAY_SIZE
               then update_metric_array ih mid src m
               else update_metric_map ih mid src m) = (ih', m')"
  shows "wf_iphash ih'
         \<and> metric_bits ih' = (metric_bits ih)(mid \<mapsto> set_bit (role_bit src) (seen_bits ih mid))
         \<and> m' = (if bit (seen_bits ih mid) (role_bit src) then m else count_role src m)
         \<and> ipaddr ih' = ipaddr ih"
proof (cases "unat (metriccount ih) \<le> METRIC_ARRAY_SIZE")
  case False
  with res have "update_metric_map ih mid src m = (ih', m')" by simp
  from record_metric_map_mode[OF wf False nb this] show ?thesis .
next
  case True
  show ?thesis
  proof (cases "find_metric (take (unat (metriccount ih)) (firstmetrics ih)) mid")
    case (Some i)
    with res True have "mark_array_slot ih i src m = (ih', m')"
      by (simp add: update_metric_array_def Let_def)
    from record_metric_array_found[OF wf True Some this] show ?thesis .
  next
    case None
    show ?thesis
    proof (cases "unat (metriccount ih) = METRIC_ARRAY_SIZE")
      case eq: True
      with res True None have
        "update_metric_map
           (ih\<lparr>metricsseen :=
                 fold (\<lambda>e ms. ms(sm_metricid e \<mapsto> metval e))
                   (take (unat (metriccount ih)) (firstmetrics ih)) (metricsseen ih)\<rparr>)
           mid src m = (ih', m')"
        by (simp add: update_metric_array_def Let_def)
      from record_metric_promote[OF wf eq None this] show ?thesis .
    next
      case False
      with True have lt: "unat (metriccount ih) < METRIC_ARRAY_SIZE" by simp
      from res True None False have
        "mark_array_slot
           (ih\<lparr>firstmetrics := (firstmetrics ih)[unat (metriccount ih) := \<lparr>sm_metricid = mid, metval = 0\<rparr>],
               metriccount := metriccount ih + 1\<rparr>)
           (unat (metriccount ih)) src m = (ih', m')"
        by (simp add: update_metric_array_def Let_def)
      from record_metric_array_new[OF wf lt None this] show ?thesis .
    qed
  qed
qed

lemma tally_of_update:
  "tally_of (AList.update k m tally) t = (if t = k then m else tally_of tally t)"
  by (simp add: tally_of_def update_conv')

lemma update_knownip_metric_eq:
  "update_knownip_metric mid ih src iplen tally =
     (case (if unat (metriccount ih) \<le> METRIC_ARRAY_SIZE
            then update_metric_array ih mid src (add_packet iplen (tally_of tally mid))
            else update_metric_map ih mid src (add_packet iplen (tally_of tally mid))) of
        (ih', m2) \<Rightarrow> (ih', AList.update mid m2 tally))"
  by (simp add: update_knownip_metric_def Let_def tally_of_def add_packet_def)

lemma update_knownip_metric_spec:
  assumes wf: "wf_iphash ih"
    and nb: "metric_bits ih mid = None \<longrightarrow> unat (metriccount ih) + 1 < 2 ^ 32"
    and res: "update_knownip_metric mid ih src iplen tally = (ih', tally')"
  shows "wf_iphash ih'
         \<and> metric_bits ih' = (metric_bits ih)(mid \<mapsto> set_bit (role_bit src) (seen_bits ih mid))
         \<and> ipaddr ih' = ipaddr ih
         \<and> (\<forall>t. tally_of tally' t =
                (if t = mid
                 then (if bit (seen_bits ih mid) (role_bit src)
                       then add_packet iplen (tally_of tally mid)
                       else count_role src (add_packet iplen (tally_of tally mid)))
                 else tally_of tally t))"
proof -
  let ?m1 = "add_packet iplen (tally_of tally mid)"
  obtain ih2 m2 where d: "(if unat (metriccount ih) \<le> METRIC_ARRAY_SIZE
               then update_metric_array ih mid src ?m1
               else update_metric_map ih mid src ?m1) = (ih2, m2)"
    by (metis surj_pair)
  with res have r: "ih' = ih2" "tally' = AList.update mid m2 tally"
    by (simp_all add: update_knownip_metric_eq)
  from record_metric_spec[OF wf nb d] r show ?thesis
    by (simp add: tally_of_update)
qed

lemma metrics_seen_insert:
  "metrics_seen (insert (ip, t, r) obs) ip' =
     (if ip' = ip then insert t (metrics_seen obs ip) else metrics_seen obs ip')"
  by (auto simp: metrics_seen_def)

lemma ips_seen_insert:
  "ips_seen (insert (ip, t, r) obs) t' r' =
     (if t' = t \<and> r' = r then insert ip (ips_seen obs t r) else ips_seen obs t' r')"
  by (auto simp: ips_seen_def)

lemma metrics_seen_mono: "obs \<subseteq> obs' \<Longrightarrow> metrics_seen obs ip \<subseteq> metrics_seen obs' ip"
  by (auto simp: metrics_seen_def)

lemma metric_bound_mono: "obs \<subseteq> obs' \<Longrightarrow> metric_bound obs' \<Longrightarrow> metric_bound obs"
  unfolding metric_bound_def
  by (meson card_mono finite_code le_less_trans metrics_seen_mono)

lemma seen_bits_upd:
  "metric_bits ih' = (metric_bits ih)(t0 \<mapsto> v) \<Longrightarrow>
     seen_bits ih' t = (if t = t0 then v else seen_bits ih t)"
  by (simp add: seen_bits_def)

lemma bit_set_bit_u8:
  "n < 8 \<Longrightarrow> bit (set_bit m (v :: u8)) n \<longleftrightarrow> (n = m \<or> bit v n)"
  by (auto simp: bit_simps)

lemma role_bit_cases:
  "(role_bit src = 0 \<longleftrightarrow> src \<noteq> 0) \<and> (role_bit src = 1 \<longleftrightarrow> src = 0)"
  by (simp add: role_bit_def)

lemma ip_inv_step:
  assumes inv: "ip_inv obs ip ih"
    and bound: "card (metrics_seen (insert (ip, t0, src \<noteq> 0) obs) ip) < 2 ^ 32"
    and res: "update_knownip_metric t0 ih src iplen tal = (ih', tal')"
  shows "ip_inv (insert (ip, t0, src \<noteq> 0) obs) ip ih'
         \<and> (\<forall>t. tally_of tal' t =
                (if t = t0
                 then (if (ip, t0, src \<noteq> 0) \<in> obs
                       then add_packet iplen (tally_of tal t0)
                       else count_role src (add_packet iplen (tally_of tal t0)))
                 else tally_of tal t))"
proof -
  from inv have wf: "wf_iphash ih" and dm: "dom (metric_bits ih) = metrics_seen obs ip"
    and bits: "\<And>t. (bit (seen_bits ih t) 0 \<longleftrightarrow> (ip, t, True) \<in> obs)
                  \<and> (bit (seen_bits ih t) 1 \<longleftrightarrow> (ip, t, False) \<in> obs)"
    by (auto simp: ip_inv_def)
  have cnt: "card (metrics_seen obs ip) = unat (metriccount ih)"
    using wf dm by (simp add: wf_iphash_def)
  have nb: "metric_bits ih t0 = None \<longrightarrow> unat (metriccount ih) + 1 < 2 ^ 32"
  proof
    assume "metric_bits ih t0 = None"
    then have "t0 \<notin> metrics_seen obs ip" using dm by (auto simp: domIff)
    then have "card (insert t0 (metrics_seen obs ip)) = card (metrics_seen obs ip) + 1"
      by simp
    with bound cnt show "unat (metriccount ih) + 1 < 2 ^ 32"
      by (simp add: metrics_seen_insert)
  qed
  from update_knownip_metric_spec[OF wf nb res]
  have wf': "wf_iphash ih'"
    and mb': "metric_bits ih' = (metric_bits ih)(t0 \<mapsto> set_bit (role_bit src) (seen_bits ih t0))"
    and tal': "\<And>t. tally_of tal' t =
                (if t = t0
                 then (if bit (seen_bits ih t0) (role_bit src)
                       then add_packet iplen (tally_of tal t0)
                       else count_role src (add_packet iplen (tally_of tal t0)))
                 else tally_of tal t)"
    by auto
  have seen: "bit (seen_bits ih t0) (role_bit src) \<longleftrightarrow> (ip, t0, src \<noteq> 0) \<in> obs"
    using bits[of t0] by (cases "src = 0") (simp_all add: role_bit_def)
  have dm': "dom (metric_bits ih') = metrics_seen (insert (ip, t0, src \<noteq> 0) obs) ip"
    using mb' dm by (simp add: metrics_seen_insert)
  have bits': "\<And>t. (bit (seen_bits ih' t) 0 \<longleftrightarrow> (ip, t, True) \<in> insert (ip, t0, src \<noteq> 0) obs)
                  \<and> (bit (seen_bits ih' t) 1 \<longleftrightarrow> (ip, t, False) \<in> insert (ip, t0, src \<noteq> 0) obs)"
    using bits by (auto simp: seen_bits_upd[OF mb'] bit_set_bit_u8 role_bit_def)
  from wf' dm' bits' tal' seen show ?thesis
    by (simp add: ip_inv_def)
qed

lemma ip_inv_other:
  "ip' \<noteq> ip \<Longrightarrow> ip_inv (insert (ip, t0, r) obs) ip' ih \<longleftrightarrow> ip_inv obs ip' ih"
  by (simp add: ip_inv_def metrics_seen_insert)

lemma of_nat_card_insert:
  "finite S \<Longrightarrow> (of_nat (card (insert x S)) :: u32) = (if x \<in> S then of_nat (card S) else of_nat (card S) + 1)"
  by (simp add: insert_absorb)

lemma tag_step:
  assumes inv: "maps_inv obs (kn(ip \<mapsto> ih)) tal"
    and bound: "metric_bound (insert (ip, t0, src \<noteq> 0) obs)"
    and res: "update_knownip_metric t0 ih src iplen tal = (ih', tal')"
  shows "maps_inv (insert (ip, t0, src \<noteq> 0) obs) (kn(ip \<mapsto> ih')) tal'"
proof -
  let ?obs' = "insert (ip, t0, src \<noteq> 0) obs"
  from inv have ii: "ip_inv obs ip ih"
    by (auto simp: maps_inv_def split: option.splits dest: spec[of _ ip])
  from bound have b: "card (metrics_seen ?obs' ip) < 2 ^ 32"
    by (simp add: metric_bound_def)
  from ip_inv_step[OF ii b res]
  have ii': "ip_inv ?obs' ip ih'"
    and tal': "\<And>t. tally_of tal' t =
                (if t = t0
                 then (if (ip, t0, src \<noteq> 0) \<in> obs
                       then add_packet iplen (tally_of tal t0)
                       else count_role src (add_packet iplen (tally_of tal t0)))
                 else tally_of tal t)"
    by auto
  have ips: "\<forall>ip'. case (kn(ip \<mapsto> ih')) ip' of
             None \<Rightarrow> metrics_seen ?obs' ip' = {}
           | Some ih \<Rightarrow> ip_inv ?obs' ip' ih"
  proof
    fix ip'
    show "case (kn(ip \<mapsto> ih')) ip' of
             None \<Rightarrow> metrics_seen ?obs' ip' = {}
           | Some ih \<Rightarrow> ip_inv ?obs' ip' ih"
    proof (cases "ip' = ip")
      case True
      with ii' show ?thesis by simp
    next
      case False
      from inv have "case kn ip' of None \<Rightarrow> metrics_seen obs ip' = {} | Some ih \<Rightarrow> ip_inv obs ip' ih"
        using False by (auto simp: maps_inv_def split: option.splits dest: spec[of _ ip'])
      with False show ?thesis
        by (auto simp: metrics_seen_insert ip_inv_other split: option.splits)
    qed
  qed
  from inv have cs: "\<And>t. srcips (tally_of tal t) = of_nat (card (ips_seen obs t True))"
    and cd: "\<And>t. destips (tally_of tal t) = of_nat (card (ips_seen obs t False))"
    by (auto simp: maps_inv_def)
  have mem: "\<And>r. ip \<in> ips_seen obs t0 r \<longleftrightarrow> (ip, t0, r) \<in> obs"
    by (simp add: ips_seen_def)
  have tallies: "\<forall>t. srcips (tally_of tal' t) = of_nat (card (ips_seen ?obs' t True))
            \<and> destips (tally_of tal' t) = of_nat (card (ips_seen ?obs' t False))"
    using cs cd mem
    by (auto simp: tal' ips_seen_insert of_nat_card_insert count_role_def add_packet_def)
  from ips tallies show ?thesis by (simp add: maps_inv_def)
qed

lemma update_tags_inv:
  assumes "maps_inv obs (kn(ip \<mapsto> ih)) tal"
    and "metric_bound (obs \<union> (\<lambda>t. (ip, t, src \<noteq> 0)) ` set ts)"
    and "update_tags ih tal src iplen ts = (ih', tal')"
  shows "maps_inv (obs \<union> (\<lambda>t. (ip, t, src \<noteq> 0)) ` set ts) (kn(ip \<mapsto> ih')) tal'"
  using assms
proof (induction ts arbitrary: obs ih tal)
  case Nil
  then show ?case by auto
next
  case (Cons t ts)
  obtain ih1 tal1 where 1: "update_knownip_metric t ih src iplen tal = (ih1, tal1)"
    by (metis surj_pair)
  with Cons.prems(3) have 2: "update_tags ih1 tal1 src iplen ts = (ih', tal')"
    by simp
  let ?obs1 = "insert (ip, t, src \<noteq> 0) obs"
  have eq: "obs \<union> (\<lambda>t. (ip, t, src \<noteq> 0)) ` set (t # ts) = ?obs1 \<union> (\<lambda>t. (ip, t, src \<noteq> 0)) ` set ts"
    by auto
  have b1: "metric_bound ?obs1"
    by (rule metric_bound_mono[OF _ Cons.prems(2)]) auto
  have i1: "maps_inv ?obs1 (kn(ip \<mapsto> ih1)) tal1"
    by (rule tag_step[OF Cons.prems(1) b1 1])
  have b2: "metric_bound (?obs1 \<union> (\<lambda>t. (ip, t, src \<noteq> 0)) ` set ts)"
    using Cons.prems(2) by (simp only: eq)
  from Cons.IH[OF i1 b2 2] show ?case by (simp only: eq)
qed

lemma fresh_iphash_inv:
  assumes "metrics_seen obs ip = {}"
  shows "ip_inv obs ip \<lparr>ipaddr = ip,
                         firstmetrics = replicate METRIC_ARRAY_SIZE \<lparr>sm_metricid = 0, metval = 0\<rparr>,
                         metriccount = 0, metricsseen = Map.empty\<rparr>"
  using assms
  by (auto simp: ip_inv_def wf_iphash_def metric_bits_def slot_pairs_def seen_bits_def
      metrics_seen_def)

lemma apply_msg_body_inv:
  assumes inv: "maps_inv obs kn tal"
    and bound: "metric_bound (obs \<union> body_obs b)"
    and res: "apply_msg_body (kn, tal) b = Some (kn', tal')"
  shows "maps_inv (obs \<union> body_obs b) kn' tal'"
proof (cases "tags b")
  case Nil
  with res inv show ?thesis by (simp add: apply_msg_body_def body_obs_def)
next
  case (Cons t0 ts)
  let ?ip = "body_ipaddr b"
  obtain kn1 thisip where ui: "update_iphash kn ?ip = (kn1, thisip)"
    by (metis surj_pair)
  obtain ih' tal2 where ut: "update_tags thisip tal (issrc b) (body_size b) (tags b) = (ih', tal2)"
    by (metis surj_pair)
  from res Cons ui ut have r: "kn' = kn1(?ip \<mapsto> ih')" "tal' = tal2"
    by (auto simp: apply_msg_body_def split: if_splits)
  have k1: "kn1(?ip \<mapsto> thisip) = kn(?ip \<mapsto> thisip)" "kn1(?ip \<mapsto> ih') = kn(?ip \<mapsto> ih')"
    using ui by (auto simp: update_iphash_def Let_def split: option.splits)
  have i0: "maps_inv obs (kn(?ip \<mapsto> thisip)) tal"
  proof (cases "kn ?ip")
    case (Some ih)
    with ui have "thisip = ih" by (simp add: update_iphash_def)
    with Some have "kn(?ip \<mapsto> thisip) = kn" by (simp add: fun_upd_idem)
    with inv show ?thesis by simp
  next
    case None
    with inv have e: "metrics_seen obs ?ip = {}"
      by (auto simp: maps_inv_def split: option.splits dest: spec[of _ ?ip])
    from None ui have "thisip = \<lparr>ipaddr = ?ip,
                         firstmetrics = replicate METRIC_ARRAY_SIZE \<lparr>sm_metricid = 0, metval = 0\<rparr>,
                         metriccount = 0, metricsseen = Map.empty\<rparr>"
      by (auto simp: update_iphash_def Let_def)
    with fresh_iphash_inv[OF e] have "ip_inv obs ?ip thisip" by simp
    with inv show ?thesis
      by (auto simp: maps_inv_def split: option.splits)
  qed
  have bo: "body_obs b = (\<lambda>t. (?ip, t, issrc b \<noteq> 0)) ` set (tags b)"
    by (simp add: body_obs_def)
  from update_tags_inv[OF i0 bound[unfolded bo] ut] r k1 show ?thesis
    by (simp add: bo)
qed

lemma apply_msg_bodies_inv:
  assumes "maps_inv obs kn tal"
    and "metric_bound (obs \<union> bodies_obs bs)"
    and "apply_msg_bodies (kn, tal) bs = Some (kn', tal')"
  shows "maps_inv (obs \<union> bodies_obs bs) kn' tal'"
  using assms
proof (induction bs arbitrary: obs kn tal)
  case Nil
  then show ?case by (simp add: bodies_obs_def)
next
  case (Cons b bs)
  from Cons.prems(3) obtain kn1 tal1 where 1: "apply_msg_body (kn, tal) b = Some (kn1, tal1)"
    and 2: "apply_msg_bodies (kn1, tal1) bs = Some (kn', tal')"
    by (auto split: option.splits)
  have eq: "obs \<union> bodies_obs (b # bs) = (obs \<union> body_obs b) \<union> bodies_obs bs"
    by (auto simp: bodies_obs_def)
  have b1: "metric_bound (obs \<union> body_obs b)"
    by (rule metric_bound_mono[OF _ Cons.prems(2)]) (auto simp: bodies_obs_def)
  have i1: "maps_inv (obs \<union> body_obs b) kn1 tal1"
    by (rule apply_msg_body_inv[OF Cons.prems(1) b1 1])
  from Cons.IH[OF i1 _ 2] Cons.prems(2) show ?case by (simp only: eq)
qed

lemma maps_inv_empty: "maps_inv {} Map.empty []"
  by (simp add: maps_inv_def metrics_seen_def ips_seen_def tally_of_def)

text \<open>
  Claim C1. Apply any sequence of update entries to the maps of one interval, which start
  empty. For every metric the unique source counter of its tally is then the number of
  distinct addresses observed with the metric as a source, and the unique destination
  counter the number observed as a destination (as 32-bit counters): an (address, metric,
  role) triple increments its counter once, however often entries repeat it, whether the
  metric set of the address is still in the array or already in the hash map. The
  hypothesis keeps the 32-bit \<^verbatim>\<open>metriccount\<close> of an address from wrapping: fewer than
  \<open>2^32\<close> distinct metrics per address.
\<close>

theorem unique_ip_counted_once:
  assumes run: "apply_msg_bodies (Map.empty, []) bs = Some (kn, tal)"
    and bound: "\<forall>ip. card {t. \<exists>b \<in> set bs. body_ipaddr b = ip \<and> t \<in> set (tags b)} < 2 ^ 32"
  shows "srcips (tally_of tal t)
           = of_nat (card {ip. \<exists>b \<in> set bs. body_ipaddr b = ip \<and> issrc b \<noteq> 0 \<and> t \<in> set (tags b)})
         \<and> destips (tally_of tal t)
           = of_nat (card {ip. \<exists>b \<in> set bs. body_ipaddr b = ip \<and> issrc b = 0 \<and> t \<in> set (tags b)})"
proof -
  have ms: "\<And>ip. metrics_seen (bodies_obs bs) ip
              = {t. \<exists>b \<in> set bs. body_ipaddr b = ip \<and> t \<in> set (tags b)}"
    by (auto simp: metrics_seen_def bodies_obs_def body_obs_def)
  have mbound: "metric_bound ({} \<union> bodies_obs bs)"
    using bound by (simp add: metric_bound_def ms)
  from apply_msg_bodies_inv[OF maps_inv_empty mbound run]
  have inv: "maps_inv (bodies_obs bs) kn tal" by simp
  have s: "ips_seen (bodies_obs bs) t True
             = {ip. \<exists>b \<in> set bs. body_ipaddr b = ip \<and> issrc b \<noteq> 0 \<and> t \<in> set (tags b)}"
    by (auto simp: ips_seen_def bodies_obs_def body_obs_def)
  have d: "ips_seen (bodies_obs bs) t False
             = {ip. \<exists>b \<in> set bs. body_ipaddr b = ip \<and> issrc b = 0 \<and> t \<in> set (tags b)}"
    by (auto simp: ips_seen_def bodies_obs_def body_obs_def)
  from inv show ?thesis by (simp add: maps_inv_def s d)
qed

lemma apply_msg_body_total:
  "tags b = [] \<or> hd (tags b) = 0 \<Longrightarrow> \<exists>r. apply_msg_body maps b = Some r"
  by (cases "tags b") (auto simp: apply_msg_body_def split: prod.splits)

lemma apply_msg_bodies_total:
  "list_all (\<lambda>b. tags b = [] \<or> hd (tags b) = 0) bs \<Longrightarrow> \<exists>r. apply_msg_bodies maps bs = Some r"
proof (induction bs arbitrary: maps)
  case Nil
  then show ?case by simp
next
  case (Cons b bs)
  then obtain r where "apply_msg_body maps b = Some r"
    using apply_msg_body_total[of b maps] by auto
  with Cons show ?case by auto
qed

lemma metrics_per_ip_bounded:
  assumes "length (concat (map tags bs)) < 2 ^ 32"
  shows "\<forall>ip. card {t. \<exists>b \<in> set bs. body_ipaddr b = ip \<and> t \<in> set (tags b)} < 2 ^ 32"
proof
  fix ip
  have "{t. \<exists>b \<in> set bs. body_ipaddr b = ip \<and> t \<in> set (tags b)} \<subseteq> set (concat (map tags bs))"
    by auto
  then have "card {t. \<exists>b \<in> set bs. body_ipaddr b = ip \<and> t \<in> set (tags b)}
               \<le> card (set (concat (map tags bs)))"
    by (intro card_mono) simp_all
  also have "\<dots> \<le> length (concat (map tags bs))" by (rule card_length)
  finally show "card {t. \<exists>b \<in> set bs. body_ipaddr b = ip \<and> t \<in> set (tags b)} < 2 ^ 32"
    using assms by simp
qed

text \<open>
  Address 1 is seen twice as a source with 22 metrics, which moves its metric set from the
  array to the hash map, and once as a destination; address 2 once as a source.
\<close>

theorem unique_ip_counted_once_witness:
  "\<exists>kn tal.
     apply_msg_bodies (Map.empty, [])
       [\<lparr>body_ipaddr = 1, issrc = 1,
         tags = [0, 1, 2, 3, 4, 5, 6, 7, 8, 9, 10, 11, 12, 13, 14, 15, 16, 17, 18, 19, 20, 21],
         body_size = 40\<rparr>,
        \<lparr>body_ipaddr = 1, issrc = 1,
         tags = [0, 1, 2, 3, 4, 5, 6, 7, 8, 9, 10, 11, 12, 13, 14, 15, 16, 17, 18, 19, 20, 21],
         body_size = 60\<rparr>,
        \<lparr>body_ipaddr = 1, issrc = 0, tags = [0, 21], body_size = 0\<rparr>,
        \<lparr>body_ipaddr = 2, issrc = 1, tags = [0], body_size = 100\<rparr>] = Some (kn, tal)
     \<and> srcips (tally_of tal 0) = 2 \<and> srcips (tally_of tal 21) = 1
     \<and> destips (tally_of tal 0) = 1 \<and> destips (tally_of tal 21) = 1
     \<and> destips (tally_of tal 3) = 0"
proof -
  let ?ts = "[0, 1, 2, 3, 4, 5, 6, 7, 8, 9, 10, 11, 12, 13, 14, 15, 16, 17, 18, 19, 20, 21] :: u64 list"
  let ?bs = "[\<lparr>body_ipaddr = 1, issrc = 1, tags = ?ts, body_size = 40\<rparr>,
        \<lparr>body_ipaddr = 1, issrc = 1, tags = ?ts, body_size = 60\<rparr>,
        \<lparr>body_ipaddr = 1, issrc = 0, tags = [0, 21], body_size = 0\<rparr>,
        \<lparr>body_ipaddr = 2, issrc = 1, tags = [0], body_size = 100\<rparr>]"
  have "list_all (\<lambda>b. tags b = [] \<or> hd (tags b) = 0) ?bs" by simp
  from apply_msg_bodies_total[OF this, of "(Map.empty, [])"]
  obtain kn tal where run: "apply_msg_bodies (Map.empty, []) ?bs = Some (kn, tal)"
    by (metis surj_pair)
  have "length (concat (map tags ?bs)) < 2 ^ 32" by simp
  then have bound: "\<forall>ip. card {t. \<exists>b \<in> set ?bs. body_ipaddr b = ip \<and> t \<in> set (tags b)} < 2 ^ 32"
    by (rule metrics_per_ip_bounded)
  have s0: "{ip. \<exists>b \<in> set ?bs. body_ipaddr b = ip \<and> issrc b \<noteq> 0 \<and> 0 \<in> set (tags b)} = {1, 2}"
    by auto
  have s21: "{ip. \<exists>b \<in> set ?bs. body_ipaddr b = ip \<and> issrc b \<noteq> 0 \<and> 21 \<in> set (tags b)} = {1}"
    by auto
  have d0: "{ip. \<exists>b \<in> set ?bs. body_ipaddr b = ip \<and> issrc b = 0 \<and> 0 \<in> set (tags b)} = {1}"
    by auto
  have d21: "{ip. \<exists>b \<in> set ?bs. body_ipaddr b = ip \<and> issrc b = 0 \<and> 21 \<in> set (tags b)} = {1}"
    by auto
  have d3: "{ip. \<exists>b \<in> set ?bs. body_ipaddr b = ip \<and> issrc b = 0 \<and> 3 \<in> set (tags b)} = {}"
    by auto
  from unique_ip_counted_once[OF run bound, of 0] unique_ip_counted_once[OF run bound, of 21]
    unique_ip_counted_once[OF run bound, of 3]
  have "srcips (tally_of tal 0) = 2 \<and> srcips (tally_of tal 21) = 1
     \<and> destips (tally_of tal 0) = 1 \<and> destips (tally_of tal 21) = 1
     \<and> destips (tally_of tal 3) = 0"
    unfolding s0 s21 d0 d21 d3 by simp
  with run show ?thesis by blast
qed

section \<open>Packets and bytes\<close>



















lemmas body_eval =
  process_tags_def process_single_tag_def GEN_METRICID3_def apply_msg_body_def
  update_iphash_def update_knownip_metric_def update_metric_array_def mark_array_slot_def
  METRIC_ARRAY_SIZE_def tally_of_def Let_def


text \<open>
  Claim C2. Every processed packet should add one packet and its IP length to the tallies
  of its tags, through the source entry. A packet whose IP length field is 0 does not:
  its source entry carries the size 0, which \<^verbatim>\<open>update_knownip_metric\<close> takes for an
  entry that was tallied already. After the source and the destination entry of such a
  packet the combined tally counts the two addresses but no packet.
\<close>

theorem zero_length_packet_not_tallied:
  "\<exists>src_body dst_body kn1 tal1 kn2 tal2.
     process_tags 10 None 0 0x01020304 1 = Some src_body
     \<and> process_tags 10 None 0 0x05060708 0 = Some dst_body
     \<and> apply_msg_body (Map.empty, []) src_body = Some (kn1, tal1)
     \<and> apply_msg_body (kn1, tal1) dst_body = Some (kn2, tal2)
     \<and> tags src_body = [0]
     \<and> packets (tally_of tal2 0) = 0 \<and> bytes (tally_of tal2 0) = 0
     \<and> srcips (tally_of tal2 0) = 1 \<and> destips (tally_of tal2 0) = 1"
  by (simp add: body_eval)

text \<open>The same packet with an IP length of 40 is tallied once, with its 40 bytes.\<close>

lemma nonzero_length_packet_tallied:
  "\<exists>src_body dst_body kn1 tal1 kn2 tal2.
     process_tags 10 None 40 0x01020304 1 = Some src_body
     \<and> process_tags 10 None 40 0x05060708 0 = Some dst_body
     \<and> apply_msg_body (Map.empty, []) src_body = Some (kn1, tal1)
     \<and> apply_msg_body (kn1, tal1) dst_body = Some (kn2, tal2)
     \<and> packets (tally_of tal2 0) = 1 \<and> bytes (tally_of tal2 0) = 40
     \<and> srcips (tally_of tal2 0) = 1 \<and> destips (tally_of tal2 0) = 1"
  by (simp add: body_eval)

section \<open>Merging an interval with a halted tracker\<close>

lemma poll_tracker_skip_inv:
  assumes "skip_inv i ts R st"
    and "poll_tracker outlabel ts (views j) j st = Some st'"
    and "never_at i ts views" and "views \<in> R"
  shows "skip_inv i ts R st'"
proof (cases "trackers_done st j")
  case True
  with assms show ?thesis by (simp add: poll_tracker_def)
next
  case nd: False
  show ?thesis
  proof (cases "views j")
    case None
    with assms nd show ?thesis by (simp add: poll_tracker_def)
  next
    case (Some tracker)
    show ?thesis
    proof (cases "j = i")
      case True
      with assms nd Some have "halted_view i ts views \<and> skipresult st' \<noteq> 0 \<or> st' = st"
        by (auto simp: poll_tracker_def never_at_def halted_view_def split: if_splits option.splits)
      with assms show ?thesis by (auto simp: skip_inv_def)
    next
      case False
      with assms nd Some have
        "trackers_done st' i = trackers_done st i
         \<and> (skipresult st \<noteq> 0 \<longrightarrow> skipresult st' \<noteq> 0)"
        by (auto simp: poll_tracker_def split: if_splits option.splits)
      with assms show ?thesis by (auto simp: skip_inv_def)
    qed
  qed
qed

lemma done_set_finite: "finite (done_set tc st)"
  by (simp add: done_set_def)

lemma done_set_card_le: "card (done_set tc st) \<le> tc"
proof -
  have "done_set tc st \<subseteq> {..<tc}" by (auto simp: done_set_def)
  then have "card (done_set tc st) \<le> card {..<tc}" by (intro card_mono) simp_all
  then show ?thesis by simp
qed

lemma poll_inv_mark:
  assumes inv: "poll_inv tc st" and j: "j < tc" and nd: "\<not> trackers_done st j"
    and st': "trackers_done st' = (trackers_done st)(j := True)"
             "totaldone st' = totaldone st + 1"
  shows "poll_inv tc st'"
proof -
  have ds: "done_set tc st' = insert j (done_set tc st)"
    using st' j by (auto simp: done_set_def)
  have nj: "j \<notin> done_set tc st" using nd by (simp add: done_set_def)
  have card': "card (done_set tc st') = card (done_set tc st) + 1"
    using nj by (simp add: ds done_set_finite)
  have le: "unat (totaldone st + 1) \<le> unat (totaldone st) + 1"
    by (simp add: unat_word_ariths)
  have eq: "tc < 256 \<Longrightarrow> unat (totaldone st + 1) = unat (totaldone st) + 1"
  proof -
    assume tc: "tc < 256"
    with inv have "unat (totaldone st) = card (done_set tc st)" by (simp add: poll_inv_def)
    moreover have "card (done_set tc st') \<le> tc" by (rule done_set_card_le)
    ultimately have "unat (totaldone st) + 1 < 256" using card' tc by simp
    then show ?thesis by (simp add: unat_word_ariths)
  qed
  from inv le eq card' st' show ?thesis
    by (auto simp: poll_inv_def)
qed

lemma poll_tracker_cases:
  assumes "poll_tracker outlabel ts view j st = Some st'"
  shows "st' = st
         \<or> (\<not> trackers_done st j \<and> trackers_done st' = (trackers_done st)(j := True)
            \<and> totaldone st' = totaldone st + 1)"
  using assms
  by (auto simp: poll_tracker_def split: if_splits option.splits)

lemma poll_tracker_poll_inv:
  assumes "poll_inv tc st" and "j < tc" and "poll_tracker outlabel ts view j st = Some st'"
  shows "poll_inv tc st'"
  using poll_tracker_cases[OF assms(3)] assms(1,2) poll_inv_mark by blast

lemma poll_trackers_inv:
  assumes "poll_trackers outlabel ts views js st = Some st'"
    and "skip_inv i ts R st" and "poll_inv tc st"
    and "never_at i ts views" and "views \<in> R" and "\<forall>j \<in> set js. j < tc"
  shows "skip_inv i ts R st' \<and> poll_inv tc st'"
  using assms
proof (induction js arbitrary: st)
  case Nil
  then show ?case by simp
next
  case (Cons j js)
  from Cons.prems(1) obtain st1 where 1: "poll_tracker outlabel ts (views j) j st = Some st1"
    and 2: "poll_trackers outlabel ts views js st1 = Some st'"
    by (auto split: option.splits)
  have s1: "skip_inv i ts R st1"
    by (rule poll_tracker_skip_inv[OF Cons.prems(2) 1 Cons.prems(4,5)])
  have p1: "poll_inv tc st1"
    using poll_tracker_poll_inv[OF Cons.prems(3) _ 1] Cons.prems(6) by simp
  from Cons.IH[OF 2 s1 p1 Cons.prems(4,5)] Cons.prems(6) show ?case by simp
qed

lemma poll_loop_inv:
  assumes "poll_loop outlabel tc ts rounds st = out"
    and "out = Poll_done st' \<or> out = Poll_waiting st'"
    and "skip_inv i ts R st" and "poll_inv tc st"
    and "\<forall>views \<in> set rounds. never_at i ts views" and "set rounds \<subseteq> R"
  shows "skip_inv i ts R st' \<and> poll_inv tc st'
         \<and> (out = Poll_done st' \<longrightarrow> \<not> unat (totaldone st') < tc)"
  using assms
proof (induction rounds arbitrary: st)
  case Nil
  then show ?case by auto
next
  case (Cons views rounds)
  from Cons.prems(1,2) obtain st1 where
    1: "poll_trackers outlabel ts views [0..<tc] st = Some st1"
    by (auto split: option.splits)
  have inv1: "skip_inv i ts R st1 \<and> poll_inv tc st1"
    using poll_trackers_inv[OF 1 Cons.prems(3,4)] Cons.prems(5,6) by simp
  show ?case
  proof (cases "unat (totaldone st1) < tc")
    case True
    with Cons.prems(1) 1 have "poll_loop outlabel tc ts rounds st1 = out" by simp
    from Cons.IH[OF this Cons.prems(2)] inv1 Cons.prems(5,6) show ?thesis by simp
  next
    case False
    with Cons.prems(1,2) 1 have "st' = st1" "out = Poll_done st'" by auto
    with inv1 False show ?thesis by simp
  qed
qed

lemma init_poll_state_inv: "skip_inv i ts R init_poll_state \<and> poll_inv tc init_poll_state"
  by (simp add: skip_inv_def poll_inv_def init_poll_state_def done_set_def)

lemma all_done_when_finished:
  assumes "poll_inv tc st" and "\<not> unat (totaldone st) < tc" and "i < tc"
  shows "trackers_done st i"
proof -
  from assms have "tc \<le> card (done_set tc st)" by (simp add: poll_inv_def)
  with done_set_card_le[of tc st] have c: "card (done_set tc st) = card {..<tc}" by simp
  have "done_set tc st \<subseteq> {..<tc}" by (auto simp: done_set_def)
  from card_subset_eq[OF _ this c] have "done_set tc st = {..<tc}" by simp
  with assms(3) show ?thesis by (auto simp: done_set_def)
qed

lemma halted_tracker_skips:
  assumes i: "i < tc"
    and never: "\<forall>views \<in> set rounds. never_at i ts views"
    and fin: "poll_loop outlabel tc ts rounds init_poll_state = Poll_done st"
  shows "skipresult st \<noteq> 0 \<and> (\<exists>views \<in> set rounds. halted_view i ts views)"
proof -
  from poll_loop_inv[OF fin _ _ _ never, of st "set rounds"] init_poll_state_inv
  have "skip_inv i ts (set rounds) st" "poll_inv tc st" "\<not> unat (totaldone st) < tc"
    by auto
  with all_done_when_finished[OF this(2,3) i] show ?thesis
    by (simp add: skip_inv_def)
qed

lemma poll_tracker_settled:
  assumes "trackers_done st j \<or> settled_view ts view"
  shows "\<exists>st'. poll_tracker outlabel ts view j st = Some st' \<and> trackers_done st' j
           \<and> (\<forall>k. trackers_done st k \<longrightarrow> trackers_done st' k)"
  using assms
  by (auto simp: poll_tracker_def settled_view_def split: if_splits option.splits)

lemma poll_trackers_settled:
  assumes "\<forall>j \<in> set js. trackers_done st j \<or> settled_view ts (views j)"
  shows "\<exists>st'. poll_trackers outlabel ts views js st = Some st'
           \<and> (\<forall>j \<in> set js. trackers_done st' j)
           \<and> (\<forall>k. trackers_done st k \<longrightarrow> trackers_done st' k)"
  using assms
proof (induction js arbitrary: st)
  case Nil
  then show ?case by simp
next
  case (Cons j js)
  from Cons.prems have "trackers_done st j \<or> settled_view ts (views j)" by simp
  from poll_tracker_settled[OF this, of outlabel]
  obtain st1 where 1: "poll_tracker outlabel ts (views j) j st = Some st1"
    and d1: "trackers_done st1 j" and m1: "\<forall>k. trackers_done st k \<longrightarrow> trackers_done st1 k"
    by blast
  from Cons.prems m1 have "\<forall>j \<in> set js. trackers_done st1 j \<or> settled_view ts (views j)"
    by auto
  from Cons.IH[OF this]
  obtain st' where 2: "poll_trackers outlabel ts views js st1 = Some st'"
    and d2: "\<forall>j \<in> set js. trackers_done st' j"
    and m2: "\<forall>k. trackers_done st1 k \<longrightarrow> trackers_done st' k"
    by auto
  from 1 2 d1 d2 m1 m2 show ?case by auto
qed

lemma poll_loop_append:
  "poll_loop outlabel tc ts (rounds @ [final]) st =
     (case poll_loop outlabel tc ts rounds st of
        Poll_waiting st' \<Rightarrow> poll_loop outlabel tc ts [final] st'
      | out \<Rightarrow> out)"
  by (induction rounds arbitrary: st) (auto split: option.splits)

lemma poll_trackers_poll_inv:
  assumes "poll_trackers outlabel ts views js st = Some st'"
    and "poll_inv tc st" and "\<forall>j \<in> set js. j < tc"
  shows "poll_inv tc st'"
  using assms
proof (induction js arbitrary: st)
  case Nil
  then show ?case by simp
next
  case (Cons j js)
  from Cons.prems(1) obtain st1 where 1: "poll_tracker outlabel ts (views j) j st = Some st1"
    and 2: "poll_trackers outlabel ts views js st1 = Some st'"
    by (auto split: option.splits)
  have "poll_inv tc st1"
    using poll_tracker_poll_inv[OF Cons.prems(2) _ 1] Cons.prems(3) by simp
  from Cons.IH[OF 2 this] Cons.prems(3) show ?case by simp
qed

lemma poll_tracker_shown:
  assumes "poll_tracker outlabel ts view j st = Some st'"
  shows "(\<forall>k. trackers_done st k \<longrightarrow> trackers_done st' k)
         \<and> (shows_interval ts view \<longrightarrow> trackers_done st' j)"
  using assms
  by (auto simp: poll_tracker_def shows_interval_def split: if_splits option.splits)

lemma poll_trackers_shown:
  assumes "poll_trackers outlabel ts views js st = Some st'"
  shows "(\<forall>k. trackers_done st k \<longrightarrow> trackers_done st' k)
         \<and> (\<forall>j \<in> set js. shows_interval ts (views j) \<longrightarrow> trackers_done st' j)"
  using assms
proof (induction js arbitrary: st)
  case Nil
  then show ?case by simp
next
  case (Cons j js)
  from Cons.prems obtain st1 where 1: "poll_tracker outlabel ts (views j) j st = Some st1"
    and 2: "poll_trackers outlabel ts views js st1 = Some st'"
    by (auto split: option.splits)
  from poll_tracker_shown[OF 1] Cons.IH[OF 2] show ?case by auto
qed

lemma poll_loop_shown:
  assumes "poll_loop outlabel tc ts rounds st = Poll_waiting st'"
    and "j < tc" and "list_ex (\<lambda>views. shows_interval ts (views j)) rounds"
  shows "trackers_done st' j"
  using assms
proof (induction rounds arbitrary: st)
  case Nil
  then show ?case by simp
next
  case (Cons views rounds)
  from Cons.prems(1) obtain st1 where 1: "poll_trackers outlabel ts views [0..<tc] st = Some st1"
    and 2: "poll_loop outlabel tc ts rounds st1 = Poll_waiting st'"
    by (auto split: option.splits if_splits)
  show ?case
  proof (cases "shows_interval ts (views j)")
    case True
    with poll_trackers_shown[OF 1] Cons.prems(2) have d1: "trackers_done st1 j" by simp
    have "\<And>rs s s'. poll_loop outlabel tc ts rs s = Poll_waiting s' \<Longrightarrow> trackers_done s j
            \<Longrightarrow> trackers_done s' j"
    proof -
      fix rs s s'
      show "poll_loop outlabel tc ts rs s = Poll_waiting s' \<Longrightarrow> trackers_done s j
            \<Longrightarrow> trackers_done s' j"
      proof (induction rs arbitrary: s)
        case Nil
        then show ?case by simp
      next
        case (Cons v rs)
        from Cons.prems(1) obtain s1 where a: "poll_trackers outlabel ts v [0..<tc] s = Some s1"
          and b: "poll_loop outlabel tc ts rs s1 = Poll_waiting s'"
          by (auto split: option.splits if_splits)
        from poll_trackers_shown[OF a] Cons.prems(2) have "trackers_done s1 j" by simp
        from Cons.IH[OF b this] show ?case .
      qed
    qed
    from this[OF 2 d1] show ?thesis .
  next
    case False
    with Cons.prems(3) have "list_ex (\<lambda>views. shows_interval ts (views j)) rounds" by simp
    from Cons.IH[OF 2 Cons.prems(2) this] show ?thesis .
  qed
qed

lemma settled_pass_finishes:
  assumes tc: "tc < 256" and inv: "poll_inv tc st"
    and s: "\<forall>j < tc. trackers_done st j \<or> settled_view ts (final j)"
  shows "\<exists>st'. poll_loop outlabel tc ts [final] st = Poll_done st'"
proof -
  from s have "\<forall>j \<in> set [0..<tc]. trackers_done st j \<or> settled_view ts (final j)"
    by simp
  from poll_trackers_settled[OF this, of outlabel]
  obtain st' where 1: "poll_trackers outlabel ts final [0..<tc] st = Some st'"
    and d: "\<forall>j \<in> set [0..<tc]. trackers_done st' j"
    by blast
  from d have "done_set tc st' = {..<tc}" by (auto simp: done_set_def)
  then have c: "card (done_set tc st') = tc" by simp
  have "poll_inv tc st'"
    by (rule poll_trackers_poll_inv[OF 1 inv]) simp
  with tc c have "unat (totaldone st') = tc" by (simp add: poll_inv_def)
  with 1 show ?thesis by simp
qed

lemma never_at_iff:
  "never_at i ts views \<longleftrightarrow> (\<forall>tracker. views i = Some tracker \<longrightarrow> lastresultts tracker \<noteq> ts)"
  by (simp add: never_at_def split: option.splits)

lemma halted_view_iff:
  "halted_view i ts views \<longleftrightarrow>
     (\<exists>tracker. views i = Some tracker \<and> haltphase tracker = 2 \<and> lastresultts tracker \<noteq> ts)"
  by (simp add: halted_view_def split: option.splits)

lemma merge_returned_iff:
  "corsaro_report_merge_interval_results (Some w) outlabel tc ts rounds = Merge_returned ret rows
     \<Longrightarrow> \<exists>st. poll_loop outlabel tc ts rounds init_poll_state = Poll_done st"
  by (auto simp: corsaro_report_merge_interval_results_def split: poll_outcome.splits)

lemma merge_skipped:
  "poll_loop outlabel tc ts rounds init_poll_state = Poll_done st \<Longrightarrow> skipresult st \<noteq> 0
     \<Longrightarrow> corsaro_report_merge_interval_results (Some w) outlabel tc ts rounds = Merge_returned 0 []"
  by (simp add: corsaro_report_merge_interval_results_def)

lemma merge_waiting_iff:
  "corsaro_report_merge_interval_results (Some w) outlabel tc ts rounds = Merge_waiting
     \<Longrightarrow> \<exists>st. poll_loop outlabel tc ts rounds init_poll_state = Poll_waiting st"
  by (auto simp: corsaro_report_merge_interval_results_def
           split: poll_outcome.splits if_splits prod.splits)

text \<open>
  Claim C7. Let tracker \<open>i\<close> never show a tally for the interval being merged, in any
  pass of the polling loop. If the merge returns, it returns 0 and has written no row,
  whatever the other trackers contributed, and tracker \<open>i\<close> was seen halted
  (\<^verbatim>\<open>haltphase\<close> 2) without the tally. And it does return: once the loop, still polling
  after the passes \<open>rounds\<close>, meets a pass \<open>final\<close> with nothing left to wait for, the
  call returns 0 with no row.
\<close>

theorem halted_tracker_suppresses_output:
  assumes i: "i < tracker_count"
    and never: "\<forall>views \<in> set (rounds @ [final]).
                  \<forall>tracker. views i = Some tracker \<longrightarrow> lastresultts tracker \<noteq> fin_ts"
  shows "(\<forall>ret rows.
            corsaro_report_merge_interval_results (Some w) outlabel tracker_count fin_ts
              (rounds @ [final]) = Merge_returned ret rows
            \<longrightarrow> ret = 0 \<and> rows = []
                \<and> (\<exists>views \<in> set (rounds @ [final]). \<exists>tracker.
                      views i = Some tracker \<and> haltphase tracker = 2))
         \<and> (tracker_count < 256
            \<and> corsaro_report_merge_interval_results (Some w) outlabel tracker_count fin_ts rounds
                = Merge_waiting
            \<and> settled tracker_count fin_ts rounds final
            \<longrightarrow> corsaro_report_merge_interval_results (Some w) outlabel tracker_count fin_ts
                  (rounds @ [final]) = Merge_returned 0 [])"
proof -
  let ?all = "rounds @ [final]"
  from never have nv: "\<forall>views \<in> set ?all. never_at i fin_ts views"
    by (simp add: never_at_iff)
  have a: "\<forall>ret rows.
            corsaro_report_merge_interval_results (Some w) outlabel tracker_count fin_ts ?all
              = Merge_returned ret rows
            \<longrightarrow> ret = 0 \<and> rows = []
                \<and> (\<exists>views \<in> set ?all. \<exists>tracker. views i = Some tracker \<and> haltphase tracker = 2)"
  proof (intro allI impI)
    fix ret rows
    assume r: "corsaro_report_merge_interval_results (Some w) outlabel tracker_count fin_ts ?all
                 = Merge_returned ret rows"
    from merge_returned_iff[OF r] obtain st where
      d: "poll_loop outlabel tracker_count fin_ts ?all init_poll_state = Poll_done st"
      by blast
    from halted_tracker_skips[OF i nv d]
    have sk: "skipresult st \<noteq> 0" and hv: "\<exists>views \<in> set ?all. halted_view i fin_ts views"
      by auto
    from merge_skipped[OF d sk, of w] r have "ret = 0 \<and> rows = []" by simp
    with hv show "ret = 0 \<and> rows = []
                \<and> (\<exists>views \<in> set ?all. \<exists>tracker. views i = Some tracker \<and> haltphase tracker = 2)"
      by (auto simp: halted_view_iff)
  qed
  have b: "tracker_count < 256
            \<and> corsaro_report_merge_interval_results (Some w) outlabel tracker_count fin_ts rounds
                = Merge_waiting
            \<and> settled tracker_count fin_ts rounds final
            \<longrightarrow> corsaro_report_merge_interval_results (Some w) outlabel tracker_count fin_ts ?all
                  = Merge_returned 0 []"
  proof (intro impI, elim conjE)
    assume tc: "tracker_count < 256"
      and wt: "corsaro_report_merge_interval_results (Some w) outlabel tracker_count fin_ts rounds
                = Merge_waiting"
      and s: "settled tracker_count fin_ts rounds final"
    from merge_waiting_iff[OF wt] obtain st1 where
      w1: "poll_loop outlabel tracker_count fin_ts rounds init_poll_state = Poll_waiting st1"
      by blast
    from poll_loop_inv[OF w1, of st1 i "set rounds"] init_poll_state_inv nv
    have inv1: "poll_inv tracker_count st1" by auto
    have "\<forall>j < tracker_count. trackers_done st1 j \<or> settled_view fin_ts (final j)"
      using s poll_loop_shown[OF w1] by (auto simp: settled_def)
    from settled_pass_finishes[OF tc inv1 this, of outlabel] obtain st2 where
      "poll_loop outlabel tracker_count fin_ts [final] st1 = Poll_done st2"
      by blast
    with w1 have d: "poll_loop outlabel tracker_count fin_ts ?all init_poll_state = Poll_done st2"
      by (simp add: poll_loop_append)
    from halted_tracker_skips[OF i nv d] have "skipresult st2 \<noteq> 0" by simp
    from merge_skipped[OF d this] show
      "corsaro_report_merge_interval_results (Some w) outlabel tracker_count fin_ts ?all
         = Merge_returned 0 []" .
  qed
  from a b show ?thesis by blast
qed

lemmas merge_eval =
  corsaro_report_merge_interval_results_def init_poll_state_def poll_tracker_def
  new_result_def init_iptracker_def

text \<open>
  Two trackers, interval 100. In the first pass tracker 0 delivers its tally and tracker 1
  cannot be locked; in the second pass tracker 1 has halted at interval 40. The tally of
  tracker 0 was merged, the interval is skipped and nothing is written.
\<close>

theorem halted_tracker_suppresses_output_witness:
  "corsaro_report_merge_interval_results
     (Some \<lparr>writer_active = True, derived_name = None, start_succeeds = True,
            write_single_metric = (\<lambda>_. 0)\<rparr>) ''unlabeled'' 2 100
     [\<lambda>j. if j = 0
           then Some ((init_iptracker 1)\<lparr>lastresultts := 100,
                  lastresult := Some [(0, \<lparr>metricid = 0, srcips = 1, destips = 1,
                                           packets = 3, bytes = 120\<rparr>)]\<rparr>)
           else None] = Merge_waiting
   \<and> settled 2 100
       [\<lambda>j. if j = 0
             then Some ((init_iptracker 1)\<lparr>lastresultts := 100,
                    lastresult := Some [(0, \<lparr>metricid = 0, srcips = 1, destips = 1,
                                             packets = 3, bytes = 120\<rparr>)]\<rparr>)
             else None]
       (\<lambda>j. if j = 0 then Some ((init_iptracker 1)\<lparr>lastresultts := 100\<rparr>)
             else Some ((init_iptracker 1)\<lparr>lastresultts := 40, haltphase := 2\<rparr>))
   \<and> corsaro_report_merge_interval_results
       (Some \<lparr>writer_active = True, derived_name = None, start_succeeds = True,
              write_single_metric = (\<lambda>_. 0)\<rparr>) ''unlabeled'' 2 100
       ([\<lambda>j. if j = 0
             then Some ((init_iptracker 1)\<lparr>lastresultts := 100,
                    lastresult := Some [(0, \<lparr>metricid = 0, srcips = 1, destips = 1,
                                             packets = 3, bytes = 120\<rparr>)]\<rparr>)
             else None]
        @ [\<lambda>j. if j = 0 then Some ((init_iptracker 1)\<lparr>lastresultts := 100\<rparr>)
                else Some ((init_iptracker 1)\<lparr>lastresultts := 40, haltphase := 2\<rparr>)])
       = Merge_returned 0 []
   \<and> (\<exists>st. poll_loop ''unlabeled'' 2 100
         ([\<lambda>j. if j = 0
               then Some ((init_iptracker 1)\<lparr>lastresultts := 100,
                      lastresult := Some [(0, \<lparr>metricid = 0, srcips = 1, destips = 1,
                                               packets = 3, bytes = 120\<rparr>)]\<rparr>)
               else None]
          @ [\<lambda>j. if j = 0 then Some ((init_iptracker 1)\<lparr>lastresultts := 100\<rparr>)
                  else Some ((init_iptracker 1)\<lparr>lastresultts := 40, haltphase := 2\<rparr>)])
         init_poll_state = Poll_done st
       \<and> map (\<lambda>(k, r). (k, pkt_cnt r, res_bytes r)) (results st) = [(0, 3, 120)]
       \<and> skipresult st = 1)"
proof -
  let ?w = "\<lparr>writer_active = True, derived_name = None, start_succeeds = True,
            write_single_metric = (\<lambda>_. 0)\<rparr> :: avro_writer_env"
  let ?v1 = "\<lambda>j::nat. if j = 0
           then Some ((init_iptracker 1)\<lparr>lastresultts := 100,
                  lastresult := Some [(0, \<lparr>metricid = 0, srcips = 1, destips = 1,
                                           packets = 3, bytes = 120\<rparr>)]\<rparr>)
           else None"
  let ?final = "\<lambda>j::nat. if j = 0 then Some ((init_iptracker 1)\<lparr>lastresultts := 100\<rparr>)
             else Some ((init_iptracker 1)\<lparr>lastresultts := 40, haltphase := 2\<rparr>)"
  have i: "(1::nat) < 2" by simp
  have u: "[0..<2] = [0, Suc 0]" by (simp add: numeral_2_eq_2)
  have never: "\<forall>views \<in> set ([?v1] @ [?final]).
                  \<forall>tracker. views 1 = Some tracker \<longrightarrow> lastresultts tracker \<noteq> 100"
    by (simp add: init_iptracker_def)
  have w1: "corsaro_report_merge_interval_results (Some ?w) ''unlabeled'' 2 100 [?v1]
              = Merge_waiting"
    by (simp add: merge_eval u)
  have s: "settled 2 100 [?v1] ?final"
    by (simp add: settled_def settled_view_def shows_interval_def init_iptracker_def
        less_2_cases_iff)
  have st: "\<exists>st. poll_loop ''unlabeled'' 2 100 ([?v1] @ [?final]) init_poll_state = Poll_done st
       \<and> map (\<lambda>(k, r). (k, pkt_cnt r, res_bytes r)) (results st) = [(0, 3, 120)]
       \<and> skipresult st = 1"
    by (simp add: merge_eval u)
  from halted_tracker_suppresses_output[OF i never, of ?w "''unlabeled''"] w1 s
  have "corsaro_report_merge_interval_results (Some ?w) ''unlabeled'' 2 100 ([?v1] @ [?final])
          = Merge_returned 0 []"
    by simp
  with w1 s st show ?thesis by blast
qed

section \<open>The port bitmaps after configuration\<close>

declare set_port_range.simps [simp del]

lemma byte_ff_bit: "bit (0xff :: 'a::len word) n \<longleftrightarrow> n < 8 \<and> n < LENGTH('a)"
proof -
  have e: "(0xff :: 'a word) = mask 8"
    by (simp add: mask_eq_exp_minus_1)
  show ?thesis
    unfolding e by (auto simp add: bit_simps)
qed

lemma int_ff_bit: "bit (0xff :: int) n \<longleftrightarrow> n < 8"
proof -
  have e: "(0xff :: int) = mask 8"
    by (simp add: mask_eq_exp_minus_1)
  show ?thesis
    unfolding e by (auto simp add: bit_simps)
qed

lemma shifted_right_bit:
  assumes "n < 8"
  shows "bit (ucast ((ucast (0xff :: u8) :: 32 word) AND drop_bit k 0xff) :: u8) n \<longleftrightarrow> n + k < 8"
  using assms by (auto simp add: bit_simps byte_ff_bit int_ff_bit)

lemma shifted_left_bit:
  assumes "n < 8"
  shows "bit (ucast ((ucast (t :: u8) :: 32 word) AND push_bit k 0xff) :: u8) n
           \<longleftrightarrow> bit t n \<and> k \<le> n"
  using assms by (auto simp add: bit_simps byte_ff_bit int_ff_bit)

lemma toadd_byte_bit:
  assumes "j < 8" and "first_port div 8 \<le> index" and "index * 8 \<le> last_port"
  shows "bit (toadd_byte first_port last_port index) (7 - j)
           \<longleftrightarrow> first_port \<le> index * 8 + j \<and> index * 8 + j \<le> last_port"
proof -
  define toadd1 :: u8 where
    "toadd1 = (if first_port > index * 8 then
                 (if first_port - index * 8 \<ge> 8 then 0
                  else ucast ((ucast (0xff :: u8) :: 32 word) AND drop_bit (first_port - index * 8) 0xff))
               else 0xff)"
  have "first_port = first_port div 8 * 8 + first_port mod 8" and "first_port mod 8 < 8"
    by simp_all
  then have near: "first_port - index * 8 < 8"
    using assms(2) by linarith
  have n: "7 - j < 8"
    by simp
  have one: "bit toadd1 (7 - j) \<longleftrightarrow> first_port \<le> index * 8 + j"
  proof (cases "first_port > index * 8")
    case True
    then have "toadd1 = ucast ((ucast (0xff :: u8) :: 32 word) AND drop_bit (first_port - index * 8) 0xff)"
      using near by (simp add: toadd1_def)
    then show ?thesis
      using shifted_right_bit [OF n, of "first_port - index * 8"] True assms(1) by simp arith
  next
    case False
    then show ?thesis
      by (simp add: toadd1_def byte_ff_bit int_ff_bit)
  qed
  have two: "toadd_byte first_port last_port index =
               (if last_port < index * 8 + 7 then
                  ucast ((ucast toadd1 :: 32 word) AND push_bit (index * 8 + 7 - last_port) 0xff)
                else toadd1)"
    using assms(3) by (simp add: toadd_byte_def toadd1_def Let_def) linarith
  show ?thesis
  proof (cases "last_port < index * 8 + 7")
    case True
    then show ?thesis
      using shifted_left_bit [OF n, of toadd1 "index * 8 + 7 - last_port"] one assms(1,3)
      unfolding two by simp arith
  next
    case False
    then show ?thesis
      using one assms(1) unfolding two by auto
  qed
qed

lemma set_port_range_length:
  "length (set_port_range port_array first_port last_port index) = length port_array"
proof (induction port_array first_port last_port index rule: set_port_range.induct)
  case (1 port_array first_port last_port index)
  then show ?case
    by (subst set_port_range.simps) simp
qed

lemma port_allowed_update:
  assumes "length port_array = 8192" and "index < 8192" and "p < 65536"
    and "first_port div 8 \<le> index" and "index * 8 \<le> last_port"
  shows "port_allowed (port_array[index := port_array ! index OR toadd_byte first_port last_port index]) p
           \<longleftrightarrow> port_allowed port_array p
                \<or> (p div 8 = index \<and> first_port \<le> p \<and> p \<le> last_port)"
proof (cases "p div 8 = index")
  case True
  have j: "p mod 8 < 8"
    by simp
  have p: "index * 8 + p mod 8 = p"
    using True by auto
  show ?thesis
    using True assms(1,2) toadd_byte_bit [OF j assms(4,5)]
    by (simp add: port_allowed_def bit_simps p)
next
  case False
  then show ?thesis
    by (simp add: port_allowed_def)
qed

lemma set_port_range_allowed:
  assumes "length port_array = 8192" and "p < 65536" and "first_port div 8 \<le> index"
  shows "port_allowed (set_port_range port_array first_port last_port index) p
           \<longleftrightarrow> port_allowed port_array p
                \<or> (index * 8 \<le> p \<and> first_port \<le> p \<and> p \<le> last_port)"
  using assms
proof (induction port_array first_port last_port index rule: set_port_range.induct)
  case (1 port_array first_port last_port index)
  show ?case
  proof (cases "index < 8192 \<and> index * 8 \<le> last_port")
    case True
    let ?next = "port_array[index := port_array ! index OR toadd_byte first_port last_port index]"
    have ih: "port_allowed (set_port_range ?next first_port last_port (index + 1)) p
                \<longleftrightarrow> port_allowed ?next p
                     \<or> ((index + 1) * 8 \<le> p \<and> first_port \<le> p \<and> p \<le> last_port)"
      using True 1 by simp
    have upd: "port_allowed ?next p
                 \<longleftrightarrow> port_allowed port_array p
                      \<or> (p div 8 = index \<and> first_port \<le> p \<and> p \<le> last_port)"
      using True 1(2,3,4) by (intro port_allowed_update) simp_all
    have unfold: "set_port_range port_array first_port last_port index
                    = set_port_range ?next first_port last_port (index + 1)"
      using True by (subst set_port_range.simps) simp
    have "index * 8 \<le> p \<longleftrightarrow> index \<le> p div 8"
      and "(index + 1) * 8 \<le> p \<longleftrightarrow> index + 1 \<le> p div 8"
      by (simp_all only: less_eq_div_iff_mult_less_eq [of 8, simplified])
    then have split: "index * 8 \<le> p \<longleftrightarrow> p div 8 = index \<or> (index + 1) * 8 \<le> p"
      by linarith
    show ?thesis
      unfolding unfold ih upd using split by blast
  next
    case False
    have unfold: "set_port_range port_array first_port last_port index = port_array"
      using False by (subst set_port_range.simps) auto
    show ?thesis
      unfolding unfold using False 1(3) by auto
  qed
qed

lemma set_port_range_from_first:
  assumes "length port_array = 8192" and "p < 65536"
  shows "port_allowed (set_port_range port_array first_port last_port (first_port div 8)) p
           \<longleftrightarrow> port_allowed port_array p \<or> (first_port \<le> p \<and> p \<le> last_port)"
proof -
  have "first_port = first_port div 8 * 8 + first_port mod 8"
    by simp
  then have "first_port div 8 * 8 \<le> p" if "first_port \<le> p"
    using that by linarith
  then show ?thesis
    using set_port_range_allowed [OF assms, of first_port "first_port div 8" last_port]
    by auto
qed

lemma port_allowed_all:
  assumes "p < 65536"
  shows "port_allowed (replicate 8192 0xff) p"
proof -
  have "p div 8 < 8192"
    using assms by simp
  then show ?thesis
    by (simp add: port_allowed_def byte_ff_bit int_ff_bit)
qed

lemma port_allowed_none:
  assumes "p < 65536"
  shows "\<not> port_allowed (replicate 8192 0) p"
proof -
  have "p div 8 < 8192"
    using assms by simp
  then show ?thesis
    by (simp add: port_allowed_def)
qed

lemma range_bounds_accepted:
  assumes "node \<noteq> Not_scalar"
  shows "case range_bounds node of
           None \<Rightarrow> \<not> accepted node
         | Some (first_port, last_port) \<Rightarrow>
             (accepted node \<longleftrightarrow> first_port \<le> last_port) \<and>
             (\<forall>p<65536. covers p node \<longleftrightarrow> first_port \<le> p \<and> p \<le> last_port)"
proof (cases node)
  case Not_scalar
  then show ?thesis
    using assms by simp
next
  case (Single r)
  then show ?thesis
    by (auto simp add: range_bounds_def accepted_def covers_def strtoport_def INVALID_PORT_def
        Let_def)
next
  case (Dashed r1 r2)
  then show ?thesis
    by (auto simp add: range_bounds_def accepted_def covers_def strtoport_def INVALID_PORT_def
        Let_def)
qed

lemma parse_port_ranges_allowed:
  assumes "p < 65536" and "seen_flag \<longrightarrow> length port_array = 8192"
  shows "case parse_port_ranges port_array items seen_flag of
           (port_array', seen_flag') \<Rightarrow>
             (seen_flag' \<longleftrightarrow>
                seen_flag \<or> list_ex accepted (takeWhile (\<lambda>node. node \<noteq> Not_scalar) items)) \<and>
             (seen_flag' \<longrightarrow>
                length port_array' = 8192 \<and>
                (port_allowed port_array' p \<longleftrightarrow>
                   (seen_flag \<and> port_allowed port_array p) \<or>
                   list_ex (covers p) (takeWhile (\<lambda>node. node \<noteq> Not_scalar) items)))"
  using assms
proof (induction items arbitrary: port_array seen_flag)
  case Nil
  then show ?case
    by simp
next
  case (Cons node rest)
  show ?case
  proof (cases "node = Not_scalar")
    case True
    then show ?thesis
      using Cons.prems by simp
  next
    case scalar: False
    note rb = range_bounds_accepted [OF scalar]
    show ?thesis
    proof (cases "range_bounds node")
      case None
      then have "\<not> accepted node" and "\<not> covers p node"
        using rb by (simp_all add: covers_def)
      then show ?thesis
        using Cons.IH [OF Cons.prems] scalar None by simp
    next
      case (Some bounds)
      obtain first_port last_port where bounds: "bounds = (first_port, last_port)"
        by (cases bounds)
      have acc: "accepted node \<longleftrightarrow> first_port \<le> last_port"
        and cov: "covers p node \<longleftrightarrow> first_port \<le> p \<and> p \<le> last_port"
        using rb Some bounds Cons.prems(1) by simp_all
      show ?thesis
      proof (cases "last_port < first_port")
        case True
        then have "\<not> accepted node" and "\<not> covers p node"
          using acc by (simp_all add: covers_def)
        then show ?thesis
          using Cons.IH [OF Cons.prems] scalar Some bounds True by simp
      next
        case False
        define cleared where
          "cleared = (if seen_flag = False then replicate 8192 0 else port_array)"
        define marked where
          "marked = set_port_range cleared first_port last_port (first_port div 8)"
        have len: "length cleared = 8192"
          using Cons.prems(2) by (simp add: cleared_def)
        have was: "port_allowed cleared p \<longleftrightarrow> seen_flag \<and> port_allowed port_array p"
          using port_allowed_none [OF Cons.prems(1)] by (simp add: cleared_def)
        have now: "port_allowed marked p
                     \<longleftrightarrow> (seen_flag \<and> port_allowed port_array p) \<or> covers p node"
          unfolding marked_def set_port_range_from_first [OF len Cons.prems(1)] was cov ..
        have mlen: "True \<longrightarrow> length marked = 8192"
          by (simp add: marked_def set_port_range_length len)
        have step: "parse_port_ranges port_array (node # rest) seen_flag
                      = parse_port_ranges marked rest True"
          using scalar Some bounds False by (simp add: marked_def cleared_def)
        have "accepted node"
          using acc False by simp
        then show ?thesis
          unfolding step using Cons.IH [OF Cons.prems(1) mlen] scalar now
          by (auto split: prod.splits)
      qed
    qed
  qed
qed

lemma parse_port_option_bitmap:
  "bitmap_of opt (parse_port_option conf (name, v)) =
     (case v of
        Sequence_value items \<Rightarrow>
          if name = option_name opt
          then fst (parse_port_ranges (bitmap_of opt conf) items (flag_of opt conf))
          else bitmap_of opt conf
      | _ \<Rightarrow> bitmap_of opt conf)"
  by (cases opt; cases v)
    (simp_all add: parse_port_option_def Let_def split: prod.splits)

lemma parse_port_option_flag:
  "flag_of opt (parse_port_option conf (name, v)) =
     (case v of
        Sequence_value items \<Rightarrow>
          if name = option_name opt
          then snd (parse_port_ranges (bitmap_of opt conf) items (flag_of opt conf))
          else flag_of opt conf
      | _ \<Rightarrow> flag_of opt conf)"
  by (cases opt; cases v)
    (simp_all add: parse_port_option_def Let_def split: prod.splits)

lemma items_read_Cons:
  "items_read opt ((name, v) # options) =
     (case v of
        Sequence_value items \<Rightarrow>
          if name = option_name opt
          then takeWhile (\<lambda>node. node \<noteq> Not_scalar) items else []
      | _ \<Rightarrow> [])
     @ items_read opt options"
  by (simp add: items_read_def split: yaml_value.splits)

lemma covers_accepted:
  assumes "list_ex (covers p) items"
  shows "list_ex accepted items"
  using assms by (auto simp add: list_ex_iff covers_def)

lemma parse_port_options_allowed:
  assumes "p < 65536" and "flag_of opt conf \<longrightarrow> length (bitmap_of opt conf) = 8192"
  shows "(flag_of opt (foldl parse_port_option conf options) \<longleftrightarrow>
            flag_of opt conf \<or> list_ex accepted (items_read opt options)) \<and>
         (flag_of opt (foldl parse_port_option conf options) \<longrightarrow>
            length (bitmap_of opt (foldl parse_port_option conf options)) = 8192 \<and>
            (port_allowed (bitmap_of opt (foldl parse_port_option conf options)) p \<longleftrightarrow>
               (flag_of opt conf \<and> port_allowed (bitmap_of opt conf) p) \<or>
               list_ex (covers p) (items_read opt options)))"
  using assms
proof (induction options arbitrary: conf)
  case Nil
  then show ?case
    by (simp add: items_read_def)
next
  case (Cons pair options)
  obtain name v where pair: "pair = (name, v)"
    by (cases pair)
  define conf' where "conf' = parse_port_option conf (name, v)"
  show ?case
  proof (cases "\<exists>items. v = Sequence_value items \<and> name = option_name opt")
    case True
    then obtain items where v: "v = Sequence_value items" and name: "name = option_name opt"
      by blast
    obtain port_array' seen_flag' where
      res: "parse_port_ranges (bitmap_of opt conf) items (flag_of opt conf) = (port_array', seen_flag')"
      by (cases "parse_port_ranges (bitmap_of opt conf) items (flag_of opt conf)")
    have b: "bitmap_of opt conf' = port_array'" and f: "flag_of opt conf' = seen_flag'"
      by (simp_all add: conf'_def parse_port_option_bitmap parse_port_option_flag v name res)
    have here: "(seen_flag' \<longleftrightarrow>
                   flag_of opt conf \<or> list_ex accepted (takeWhile (\<lambda>node. node \<noteq> Not_scalar) items)) \<and>
                (seen_flag' \<longrightarrow>
                   length port_array' = 8192 \<and>
                   (port_allowed port_array' p \<longleftrightarrow>
                      (flag_of opt conf \<and> port_allowed (bitmap_of opt conf) p) \<or>
                      list_ex (covers p) (takeWhile (\<lambda>node. node \<noteq> Not_scalar) items)))"
      using parse_port_ranges_allowed [OF Cons.prems, of items] by (simp add: res)
    have len: "flag_of opt conf' \<longrightarrow> length (bitmap_of opt conf') = 8192"
      using here b f by simp
    have rd: "items_read opt (pair # options)
                = takeWhile (\<lambda>node. node \<noteq> Not_scalar) items @ items_read opt options"
      by (simp add: pair items_read_Cons v name)
    show ?thesis
      using Cons.IH [OF Cons.prems(1) len] here
        covers_accepted [of p "takeWhile (\<lambda>node. node \<noteq> Not_scalar) items"]
      unfolding rd b f by (simp add: pair conf'_def [symmetric] b f) blast
  next
    case False
    then have b: "bitmap_of opt conf' = bitmap_of opt conf"
      and f: "flag_of opt conf' = flag_of opt conf"
      by (auto simp add: conf'_def parse_port_option_bitmap parse_port_option_flag
          split: yaml_value.splits)
    have rd: "items_read opt (pair # options) = items_read opt options"
      using False by (auto simp add: pair items_read_Cons split: yaml_value.splits)
    have len: "flag_of opt conf' \<longrightarrow> length (bitmap_of opt conf') = 8192"
      using Cons.prems(2) b f by simp
    show ?thesis
      using Cons.IH [OF Cons.prems(1) len]
      unfolding rd b f by (simp add: pair conf'_def [symmetric])
  qed
qed

lemma default_all_ports_bitmap:
  "bitmap_of opt (default_all_ports conf) =
     (if flag_of opt conf = False then replicate 8192 0xff else bitmap_of opt conf)"
  by (cases opt) (simp_all add: default_all_ports_def)

lemma parse_config_allowed:
  assumes "p < 65536"
  shows "port_allowed (bitmap_of opt (corsaro_report_parse_config garbage options)) p \<longleftrightarrow>
           (if list_ex accepted (items_read opt options)
            then list_ex (covers p) (items_read opt options) else True)"
proof -
  define conf0 where
    "conf0 = \<lparr>tcp_sources = fst garbage, tcp_dests = fst (snd garbage),
              udp_sources = fst (snd (snd garbage)), udp_dests = snd (snd (snd garbage)),
              set_tcp_src_ports = False, set_tcp_dest_ports = False,
              set_udp_src_ports = False, set_udp_dest_ports = False\<rparr>"
  have f0: "flag_of opt conf0 = False"
    by (cases opt) (simp_all add: conf0_def)
  then have "flag_of opt conf0 \<longrightarrow> length (bitmap_of opt conf0) = 8192"
    by simp
  note fold = parse_port_options_allowed [OF assms this, of options]
  have cfg: "corsaro_report_parse_config garbage options
               = default_all_ports (foldl parse_port_option conf0 options)"
    by (simp add: corsaro_report_parse_config_def conf0_def)
  show ?thesis
    using fold port_allowed_all [OF assms]
    unfolding cfg default_all_ports_bitmap f0 by simp
qed

text \<open>
  Claim C8, as the specification states it, fails for a range whose last port is above
  65535. With \<^verbatim>\<open>tcp_dest_port_range: ["100-70000"]\<close> the last port is capped at 65535 and
  the range is kept, so port 200 is allowed; the specification keeps only ranges with
  both bounds at most 65535, and would clear the bit of port 200.
\<close>

theorem capped_range_is_kept:
  "port_allowed
     (bitmap_of Tcp_dest
        (corsaro_report_parse_config
           (replicate 8192 0, replicate 8192 0, replicate 8192 0, replicate 8192 0)
           [(''tcp_dest_port_range'',
             Sequence_value [Dashed \<lparr>parsed = 100, errno = 0\<rparr> \<lparr>parsed = 70000, errno = 0\<rparr>])]))
     200 \<and>
   \<not> spec_port_allowed [Dashed \<lparr>parsed = 100, errno = 0\<rparr> \<lparr>parsed = 70000, errno = 0\<rparr>] 200"
  using parse_config_allowed [of 200 Tcp_dest
      "(replicate 8192 0, replicate 8192 0, replicate 8192 0, replicate 8192 0)"
      "[(''tcp_dest_port_range'',
         Sequence_value [Dashed \<lparr>parsed = 100, errno = 0\<rparr> \<lparr>parsed = 70000, errno = 0\<rparr>])]"]
  by (simp add: items_read_def accepted_def covers_def spec_port_allowed_def)

text \<open>
  Claim C8, amended: after configuration parsing, for every port \<open>p\<close> in 0..65535 and each
  of the four bitmaps, if no item read for the option of the bitmap is accepted as a range
  then bit \<open>p\<close> is set, otherwise bit \<open>p\<close> is set if and only if \<open>p\<close> lies within an accepted
  range. The items read are those of the lists given under the name of the option, each
  list up to its first item that is not a scalar; an item is accepted when its first port
  converts without error to at most 65535, its last port converts without error and the
  first port is not above the last; a last port above 65535 stands for 65535.
\<close>

theorem port_bitmap_after_config:
  assumes "p < 65536"
  shows "port_allowed (bitmap_of opt (corsaro_report_parse_config garbage options)) p \<longleftrightarrow>
           (if list_ex accepted (items_read opt options)
            then list_ex (covers p) (items_read opt options) else True)"
  using assms by (rule parse_config_allowed)

theorem port_bitmap_after_config_witness:
  "(80 :: nat) < 65536 \<and> (443 :: nat) < 65536 \<and>
   port_allowed
     (bitmap_of Tcp_dest
        (corsaro_report_parse_config
           (replicate 8192 0, replicate 8192 0, replicate 8192 0, replicate 8192 0)
           [(''tcp_dest_port_range'', Sequence_value [Single \<lparr>parsed = 80, errno = 0\<rparr>])]))
     80 \<and>
   \<not> port_allowed
     (bitmap_of Tcp_dest
        (corsaro_report_parse_config
           (replicate 8192 0, replicate 8192 0, replicate 8192 0, replicate 8192 0)
           [(''tcp_dest_port_range'', Sequence_value [Single \<lparr>parsed = 80, errno = 0\<rparr>])]))
     443 \<and>
   port_allowed
     (bitmap_of Udp_source
        (corsaro_report_parse_config
           (replicate 8192 0, replicate 8192 0, replicate 8192 0, replicate 8192 0)
           [(''tcp_dest_port_range'', Sequence_value [Single \<lparr>parsed = 80, errno = 0\<rparr>])]))
     443"
  using
    port_bitmap_after_config [of 80 Tcp_dest
      "(replicate 8192 0, replicate 8192 0, replicate 8192 0, replicate 8192 0)"
      "[(''tcp_dest_port_range'', Sequence_value [Single \<lparr>parsed = 80, errno = 0\<rparr>])]"]
    port_bitmap_after_config [of 443 Tcp_dest
      "(replicate 8192 0, replicate 8192 0, replicate 8192 0, replicate 8192 0)"
      "[(''tcp_dest_port_range'', Sequence_value [Single \<lparr>parsed = 80, errno = 0\<rparr>])]"]
    port_bitmap_after_config [of 443 Udp_source
      "(replicate 8192 0, replicate 8192 0, replicate 8192 0, replicate 8192 0)"
      "[(''tcp_dest_port_range'', Sequence_value [Single \<lparr>parsed = 80, errno = 0\<rparr>])]"]
  by (simp add: items_read_def accepted_def covers_def)

section \<open>Flushing a batch of updates\<close>

lemma send_loop:
  assumes "length queues = tracker_count" and "length (nextmsg state) = tracker_count"
    and "n \<le> tracker_count"
  shows "length (fst (foldl (send_pending_then msg) (queues, state) [0..<n])) = tracker_count
         \<and> length (nextmsg (snd (foldl (send_pending_then msg) (queues, state) [0..<n])))
             = tracker_count
         \<and> threadid (snd (foldl (send_pending_then msg) (queues, state) [0..<n])) = threadid state
         \<and> current_interval (snd (foldl (send_pending_then msg) (queues, state) [0..<n]))
             = current_interval state
         \<and> (\<forall>k<tracker_count.
               fst (foldl (send_pending_then msg) (queues, state) [0..<n]) ! k
                 = (if k < n
                    then queues ! k
                         @ (if update (nextmsg state ! k) \<noteq> [] then [nextmsg state ! k] else [])
                         @ [msg]
                    else queues ! k)
               \<and> nextmsg (snd (foldl (send_pending_then msg) (queues, state) [0..<n])) ! k
                   = (if k < n then (nextmsg state ! k)\<lparr>update := []\<rparr> else nextmsg state ! k))"
  using assms(3)
proof (induction n)
  case 0
  then show ?case
    using assms(1,2) by simp
next
  case (Suc n)
  define sys where "sys = foldl (send_pending_then msg) (queues, state) [0..<n]"
  have n: "n < tracker_count"
    using Suc.prems by simp
  have ih: "length (fst sys) = tracker_count" "length (nextmsg (snd sys)) = tracker_count"
    "threadid (snd sys) = threadid state" "current_interval (snd sys) = current_interval state"
    "\<forall>k<tracker_count.
       fst sys ! k
         = (if k < n
            then queues ! k
                 @ (if update (nextmsg state ! k) \<noteq> [] then [nextmsg state ! k] else [])
                 @ [msg]
            else queues ! k)
       \<and> nextmsg (snd sys) ! k
           = (if k < n then (nextmsg state ! k)\<lparr>update := []\<rparr> else nextmsg state ! k)"
    using Suc.IH n by (simp_all add: sys_def)
  have step: "foldl (send_pending_then msg) (queues, state) [0..<Suc n]
                = send_pending_then msg sys n"
    by (simp add: sys_def)
  show ?case
    unfolding step
    using ih n
    by (auto simp add: send_pending_then_def Let_def nth_list_update less_Suc_eq)
qed

text \<open>
  Claim C9, as the specification states it, fails in the processing thread of
  \<^verbatim>\<open>libcorsaro3/plugins/corsaro_report.c\<close>: with four trackers and 499 updates pending for
  tracker 1, one more packet from address 1.0.0.2 puts a message of 500 updates on the
  queue of tracker 1 and leaves nothing pending, far below 10,000 updates.
\<close>

theorem batch_flushed_at_500:
  "map_option
     (\<lambda>sys. (map (map (\<lambda>m. length (update m))) (fst sys),
              map (\<lambda>m. length (update m)) (nextmsg (snd sys))))
     (update_metrics_for_address 10 4
        ([[], [], [], []],
         (corsaro_report_init_processing 4 0)
           \<lparr>nextmsg := [\<lparr>msgtype = 0, sender = 0, timestamp = 0, update = []\<rparr>,
                        \<lparr>msgtype = 0, sender = 0, timestamp = 0,
                         update = replicate 499 \<lparr>body_ipaddr = 0x01000001, issrc = 1, tags = [0], body_size = 40\<rparr>\<rparr>,
                        \<lparr>msgtype = 0, sender = 0, timestamp = 0, update = []\<rparr>,
                        \<lparr>msgtype = 0, sender = 0, timestamp = 0, update = []\<rparr>]\<rparr>)
        0x01000002 1 40 None)
     = Some ([[], [500], [], []], [0, 0, 0, 0])
   \<and> (500 :: nat) < REPORT_BATCH_SIZE"
  by (simp add: update_metrics_for_address_def process_tags_def process_single_tag_def
      GEN_METRICID3_def REPORT_BATCH_SIZE3_def REPORT_BATCH_SIZE_def
      corsaro_report_init_processing_def Let_def drop_bit_eq_div)

text \<open>
  Claim C9, amended: a processing thread flushes the pending update message of a tracker
  as soon as an update brings the number of IP updates in it to \<^verbatim>\<open>REPORT_BATCH_SIZE\<close>, so
  that fewer than \<^verbatim>\<open>REPORT_BATCH_SIZE\<close> updates are left pending after every update; the
  flushed message carries every pending update and the new one, goes to the queue of that
  tracker alone, and the pending message restarts empty. Below that number an update
  leaves the message pending, but the end of an interval and the halt of the thread flush
  every pending message that holds at least one update, ahead of the interval-end or halt
  message. The constant is 500 in \<^verbatim>\<open>libcorsaro3/plugins/corsaro_report.c\<close>, the file of
  these flushes; it is 10000 in \<^verbatim>\<open>libcorsaro/plugins/report/report_internal.h\<close>.
\<close>

theorem pending_message_flushes:
  assumes tc: "0 < tracker_count"
    and len: "length (nextmsg state) = tracker_count" "length queues = tracker_count"
    and pending: "\<forall>j<tracker_count. length (update (nextmsg state ! j)) < REPORT_BATCH_SIZE3"
    and k: "k < tracker_count"
  shows "(\<forall>body. process_tags max_tags tgs iplen addr src = Some body \<longrightarrow>
            (\<exists>queues' state'.
               update_metrics_for_address max_tags tracker_count (queues, state) addr src iplen tgs
                 = Some (queues', state') \<and>
               (if k = unat (drop_bit 24 addr) mod tracker_count then
                  (if length (update (nextmsg state ! k)) + 1 < REPORT_BATCH_SIZE3
                   then queues' ! k = queues ! k
                        \<and> update (nextmsg state' ! k) = update (nextmsg state ! k) @ [body]
                   else queues' ! k
                          = queues ! k
                            @ [(nextmsg state ! k)\<lparr>update := update (nextmsg state ! k) @ [body]\<rparr>]
                        \<and> update (nextmsg state' ! k) = [])
                else queues' ! k = queues ! k \<and> nextmsg state' ! k = nextmsg state ! k) \<and>
               length (update (nextmsg state' ! k)) < REPORT_BATCH_SIZE3)) \<and>
         fst (corsaro_report_end_interval tracker_count (queues, state)) ! k
           = queues ! k
             @ (if update (nextmsg state ! k) \<noteq> [] then [nextmsg state ! k] else [])
             @ [\<lparr>msgtype = CORSARO_IP_MESSAGE_INTERVAL, sender = threadid state,
                 timestamp = current_interval state, update = []\<rparr>] \<and>
         update (nextmsg (snd (corsaro_report_end_interval tracker_count (queues, state))) ! k) = [] \<and>
         fst (corsaro_report_halt_processing tracker_count (queues, state)) ! k
           = queues ! k
             @ (if update (nextmsg state ! k) \<noteq> [] then [nextmsg state ! k] else [])
             @ [\<lparr>msgtype = CORSARO_IP_MESSAGE_HALT, sender = threadid state,
                 timestamp = 0, update = []\<rparr>] \<and>
         update (nextmsg (snd (corsaro_report_halt_processing tracker_count (queues, state))) ! k) = [] \<and>
         REPORT_BATCH_SIZE3 = 500 \<and> REPORT_BATCH_SIZE = 10000"
proof -
  define h where "h = unat (drop_bit 24 addr) mod tracker_count"
  have h: "h < tracker_count"
    using tc by (simp add: h_def)
  have pk: "length (update (nextmsg state ! k)) < REPORT_BATCH_SIZE3"
    and ph: "length (update (nextmsg state ! h)) < REPORT_BATCH_SIZE3"
    using pending k h by simp_all
  have upd: "\<exists>queues' state'.
               update_metrics_for_address max_tags tracker_count (queues, state) addr src iplen tgs
                 = Some (queues', state') \<and>
               (if k = h then
                  (if length (update (nextmsg state ! k)) + 1 < REPORT_BATCH_SIZE3
                   then queues' ! k = queues ! k
                        \<and> update (nextmsg state' ! k) = update (nextmsg state ! k) @ [body]
                   else queues' ! k
                          = queues ! k
                            @ [(nextmsg state ! k)\<lparr>update := update (nextmsg state ! k) @ [body]\<rparr>]
                        \<and> update (nextmsg state' ! k) = [])
                else queues' ! k = queues ! k \<and> nextmsg state' ! k = nextmsg state ! k) \<and>
               length (update (nextmsg state' ! k)) < REPORT_BATCH_SIZE3"
    if pt: "process_tags max_tags tgs iplen addr src = Some body" for body
    using tc len pt h k pk ph
    by (auto simp add: update_metrics_for_address_def Let_def h_def [symmetric])
  define int_msg where
    "int_msg = \<lparr>msgtype = CORSARO_IP_MESSAGE_INTERVAL, sender = threadid state,
                 timestamp = current_interval state, update = []\<rparr>"
  define halt_msg where
    "halt_msg = \<lparr>msgtype = CORSARO_IP_MESSAGE_HALT, sender = threadid state,
                  timestamp = 0, update = []\<rparr>"
  have loop: "fst (foldl (send_pending_then msg) (queues, state) [0..<tracker_count]) ! k
                = queues ! k
                  @ (if update (nextmsg state ! k) \<noteq> [] then [nextmsg state ! k] else [])
                  @ [msg]"
    "update (nextmsg (snd (foldl (send_pending_then msg) (queues, state) [0..<tracker_count])) ! k)
       = []" for msg
    using send_loop [OF len(2) len(1) order_refl, of msg] k by simp_all
  have ended: "fst (corsaro_report_end_interval tracker_count (queues, state)) ! k
           = queues ! k
             @ (if update (nextmsg state ! k) \<noteq> [] then [nextmsg state ! k] else [])
             @ [int_msg]"
    "update (nextmsg (snd (corsaro_report_end_interval tracker_count (queues, state))) ! k) = []"
    using loop [of int_msg]
    by (simp_all add: corsaro_report_end_interval_def Let_def int_msg_def)
  have halted: "fst (corsaro_report_halt_processing tracker_count (queues, state)) ! k
           = queues ! k
             @ (if update (nextmsg state ! k) \<noteq> [] then [nextmsg state ! k] else [])
             @ [halt_msg]"
    "update (nextmsg (snd (corsaro_report_halt_processing tracker_count (queues, state))) ! k) = []"
    using loop [of halt_msg]
    by (simp_all add: corsaro_report_halt_processing_def Let_def halt_msg_def)
  have vals: "REPORT_BATCH_SIZE3 = 500" "REPORT_BATCH_SIZE = 10000"
    by (simp_all add: REPORT_BATCH_SIZE3_def REPORT_BATCH_SIZE_def)
  show ?thesis
    using upd ended halted vals
    unfolding h_def int_msg_def halt_msg_def by blast
qed

text \<open>
  Thread 0 with four trackers and one update pending for tracker 3. A packet from 3.0.0.9
  adds a second update and nothing is queued; the end of the interval, or the halt, queues
  the pending message with its one update, followed by the interval-end or halt message.
\<close>

theorem pending_message_flushes_witness:
  "0 < (4 :: nat) \<and>
   map_option (\<lambda>sys. (fst sys ! 3, update (nextmsg (snd sys) ! 3)))
     (update_metrics_for_address 10 4
        ([[], [], [], []],
         \<lparr>nextmsg = [\<lparr>msgtype = 0, sender = 0, timestamp = 0, update = []\<rparr>,
                     \<lparr>msgtype = 0, sender = 0, timestamp = 0, update = []\<rparr>,
                     \<lparr>msgtype = 0, sender = 0, timestamp = 0, update = []\<rparr>,
                     \<lparr>msgtype = 0, sender = 0, timestamp = 0,
                      update = [\<lparr>body_ipaddr = 0x03000001, issrc = 0, tags = [0], body_size = 0\<rparr>]\<rparr>],
           threadid = 0, current_interval = 60, queueblocks = 0\<rparr>)
        0x03000009 1 40 None)
     = Some ([], [\<lparr>body_ipaddr = 0x03000001, issrc = 0, tags = [0], body_size = 0\<rparr>,
                  \<lparr>body_ipaddr = 0x03000009, issrc = 1, tags = [0], body_size = 40\<rparr>]) \<and>
   fst (corsaro_report_end_interval 4
        ([[], [], [], []],
         \<lparr>nextmsg = [\<lparr>msgtype = 0, sender = 0, timestamp = 0, update = []\<rparr>,
                     \<lparr>msgtype = 0, sender = 0, timestamp = 0, update = []\<rparr>,
                     \<lparr>msgtype = 0, sender = 0, timestamp = 0, update = []\<rparr>,
                     \<lparr>msgtype = 0, sender = 0, timestamp = 0,
                      update = [\<lparr>body_ipaddr = 0x03000001, issrc = 0, tags = [0], body_size = 0\<rparr>]\<rparr>],
           threadid = 0, current_interval = 60, queueblocks = 0\<rparr>)) ! 3
     = [\<lparr>msgtype = 0, sender = 0, timestamp = 0,
         update = [\<lparr>body_ipaddr = 0x03000001, issrc = 0, tags = [0], body_size = 0\<rparr>]\<rparr>,
        \<lparr>msgtype = 1, sender = 0, timestamp = 60, update = []\<rparr>] \<and>
   fst (corsaro_report_halt_processing 4
        ([[], [], [], []],
         \<lparr>nextmsg = [\<lparr>msgtype = 0, sender = 0, timestamp = 0, update = []\<rparr>,
                     \<lparr>msgtype = 0, sender = 0, timestamp = 0, update = []\<rparr>,
                     \<lparr>msgtype = 0, sender = 0, timestamp = 0, update = []\<rparr>,
                     \<lparr>msgtype = 0, sender = 0, timestamp = 0,
                      update = [\<lparr>body_ipaddr = 0x03000001, issrc = 0, tags = [0], body_size = 0\<rparr>]\<rparr>],
           threadid = 0, current_interval = 60, queueblocks = 0\<rparr>)) ! 3
     = [\<lparr>msgtype = 0, sender = 0, timestamp = 0,
         update = [\<lparr>body_ipaddr = 0x03000001, issrc = 0, tags = [0], body_size = 0\<rparr>]\<rparr>,
        \<lparr>msgtype = 0, sender = 0, timestamp = 0, update = []\<rparr>]"
proof -
  let ?empty = "\<lparr>msgtype = 0, sender = 0, timestamp = 0, update = []\<rparr> :: corsaro_report_ip_message_t"
  let ?old = "\<lparr>body_ipaddr = 0x03000001, issrc = 0, tags = [0], body_size = 0\<rparr>"
  let ?body = "\<lparr>body_ipaddr = 0x03000009, issrc = 1, tags = [0], body_size = 40\<rparr>"
  let ?pend = "\<lparr>msgtype = 0, sender = 0, timestamp = 0, update = [?old]\<rparr>"
  let ?state = "\<lparr>nextmsg = [?empty, ?empty, ?empty, ?pend],
                 threadid = 0, current_interval = 60, queueblocks = 0\<rparr>"
  let ?queues = "[[], [], [], []] :: corsaro_report_ip_message_t list list"
  have tc: "0 < (4 :: nat)" and k: "(3 :: nat) < 4"
    by simp_all
  have len: "length (nextmsg ?state) = 4" "length ?queues = 4"
    by simp_all
  have pending: "\<forall>j<4. length (update (nextmsg ?state ! j)) < REPORT_BATCH_SIZE3"
  proof (intro allI impI)
    fix j :: nat
    assume "j < 4"
    then consider "j = 0" | "j = 1" | "j = 2" | "j = 3"
      by linarith
    then show "length (update (nextmsg ?state ! j)) < REPORT_BATCH_SIZE3"
      by cases (simp_all add: REPORT_BATCH_SIZE3_def)
  qed
  have pt: "process_tags 10 None 40 0x03000009 1 = Some ?body"
    by (simp add: process_tags_def process_single_tag_def GEN_METRICID3_def)
  have h: "unat (drop_bit 24 (0x03000009 :: u32)) mod 4 = 3"
    by (simp add: drop_bit_eq_div)
  note all = pending_message_flushes [OF tc len pending k, of 10 None 40 "0x03000009" 1]
  obtain queues' state' where
    res: "update_metrics_for_address 10 4 (?queues, ?state) 0x03000009 1 40 None
            = Some (queues', state')"
    and q: "queues' ! 3 = ?queues ! 3"
    and p: "update (nextmsg state' ! 3) = update (nextmsg ?state ! 3) @ [?body]"
    using all [THEN conjunct1, rule_format, OF pt]
    by (auto simp add: h REPORT_BATCH_SIZE3_def)
  have one: "map_option (\<lambda>sys. (fst sys ! 3, update (nextmsg (snd sys) ! 3)))
               (update_metrics_for_address 10 4 (?queues, ?state) 0x03000009 1 40 None)
             = Some ([], [?old, ?body])"
    using q p by (simp add: res)
  have two: "fst (corsaro_report_end_interval 4 (?queues, ?state)) ! 3
               = [?pend, \<lparr>msgtype = 1, sender = 0, timestamp = 60, update = []\<rparr>]"
    using all [THEN conjunct2, THEN conjunct1]
    by (simp add: CORSARO_IP_MESSAGE_INTERVAL_def)
  have three: "fst (corsaro_report_halt_processing 4 (?queues, ?state)) ! 3
               = [?pend, \<lparr>msgtype = 0, sender = 0, timestamp = 0, update = []\<rparr>]"
    using all [THEN conjunct2, THEN conjunct2, THEN conjunct2, THEN conjunct1]
    by (simp add: CORSARO_IP_MESSAGE_HALT_def)
  show ?thesis
    by (intro conjI tc one two three)
qed

section \<open>Update messages as the trackers read them\<close>

lemma update_metrics_for_address_inv:
  assumes "proc_inv tracker_count sys"
    and "update_metrics_for_address max_tags tracker_count sys addr src iplen tgs = Some sys'"
  shows "proc_inv tracker_count sys'"
proof -
  obtain queues state where sys: "sys = (queues, state)"
    by (cases sys)
  have tc: "tracker_count \<noteq> 0"
    using assms(2) by (auto simp add: update_metrics_for_address_def split: if_splits)
  define h where "h = unat (drop_bit 24 addr) mod tracker_count"
  have h: "h < tracker_count"
    using tc by (simp add: h_def)
  obtain body where pt: "process_tags max_tags tgs iplen addr src = Some body"
    using assms(2) tc by (auto simp add: update_metrics_for_address_def Let_def split: option.splits)
  define msg' where "msg' = (nextmsg state ! h)\<lparr>update := update (nextmsg state ! h) @ [body]\<rparr>"
  have len: "length queues = tracker_count" "length (nextmsg state) = tracker_count"
    using assms(1) by (simp_all add: proc_inv_def sys)
  have pend: "msgtype (nextmsg state ! k) = CORSARO_IP_MESSAGE_HALT"
    "length (update (nextmsg state ! k)) < REPORT_BATCH_SIZE3" if "k < tracker_count" for k
    using assms(1) that by (simp_all add: proc_inv_def sys)
  have queued: "msgtype m = CORSARO_IP_MESSAGE_HALT \<or> msgtype m = CORSARO_IP_MESSAGE_INTERVAL"
    "update m \<noteq> [] \<longrightarrow> msgtype m = CORSARO_IP_MESSAGE_HALT"
    "length (update m) \<le> REPORT_BATCH_SIZE3"
    if "k < tracker_count" and "m \<in> set (queues ! k)" for k m
    using assms(1) that by (simp_all add: proc_inv_def sys)
  have new: "msgtype msg' = CORSARO_IP_MESSAGE_HALT"
    "length (update msg') = Suc (length (update (nextmsg state ! h)))"
    using pend(1) [OF h] by (simp_all add: msg'_def)
  show ?thesis
  proof (cases "length (update msg') < REPORT_BATCH_SIZE3")
    case True
    then have sys': "sys' = (queues, state\<lparr>nextmsg := (nextmsg state)[h := msg']\<rparr>)"
      using assms(2) tc pt new(2)
      by (auto simp add: update_metrics_for_address_def Let_def sys h_def [symmetric]
          msg'_def)
    show ?thesis
      unfolding proc_inv_def sys'
    proof (intro conjI allI impI)
      fix k
      assume k: "k < tracker_count"
      show "msgtype (nextmsg (snd (queues, state\<lparr>nextmsg := (nextmsg state)[h := msg']\<rparr>)) ! k)
              = CORSARO_IP_MESSAGE_HALT"
        using k h len pend(1) [OF k] new(1) by (simp add: nth_list_update)
      show "length (update (nextmsg (snd (queues, state\<lparr>nextmsg := (nextmsg state)[h := msg']\<rparr>)) ! k))
              < REPORT_BATCH_SIZE3"
        using k h len pend(2) [OF k] True by (simp add: nth_list_update)
      show "\<forall>m \<in> set (fst (queues, state\<lparr>nextmsg := (nextmsg state)[h := msg']\<rparr>) ! k).
              (msgtype m = CORSARO_IP_MESSAGE_HALT \<or> msgtype m = CORSARO_IP_MESSAGE_INTERVAL) \<and>
              (update m \<noteq> [] \<longrightarrow> msgtype m = CORSARO_IP_MESSAGE_HALT) \<and>
              length (update m) \<le> REPORT_BATCH_SIZE3"
        using queued [OF k] by simp
    qed (simp_all add: len)
  next
    case False
    then have full: "length (update msg') = REPORT_BATCH_SIZE3"
      using new(2) pend(2) [OF h] by simp
    define state' where
      "state' = state\<lparr>queueblocks := (if length (queues ! h) \<ge> 2048
                                        then queueblocks state + 1 else queueblocks state),
                      nextmsg := (nextmsg state)[h := msg'\<lparr>update := []\<rparr>]\<rparr>"
    have sys': "sys' = (queues[h := queues ! h @ [msg']], state')"
      using assms(2) tc pt False new(2)
      by (auto simp add: update_metrics_for_address_def Let_def sys h_def [symmetric]
          msg'_def state'_def)
    have nm: "nextmsg state' = (nextmsg state)[h := msg'\<lparr>update := []\<rparr>]"
      by (simp add: state'_def)
    show ?thesis
      unfolding proc_inv_def sys'
    proof (intro conjI allI impI)
      fix k
      assume k: "k < tracker_count"
      show "msgtype (nextmsg (snd (queues[h := queues ! h @ [msg']], state')) ! k)
              = CORSARO_IP_MESSAGE_HALT"
        using k h len pend(1) [OF k] new(1) by (simp add: nm nth_list_update)
      show "length (update (nextmsg (snd (queues[h := queues ! h @ [msg']], state')) ! k))
              < REPORT_BATCH_SIZE3"
        using k h len pend(2) [OF k] by (simp add: nm nth_list_update)
      show "\<forall>m \<in> set (fst (queues[h := queues ! h @ [msg']], state') ! k).
              (msgtype m = CORSARO_IP_MESSAGE_HALT \<or> msgtype m = CORSARO_IP_MESSAGE_INTERVAL) \<and>
              (update m \<noteq> [] \<longrightarrow> msgtype m = CORSARO_IP_MESSAGE_HALT) \<and>
              length (update m) \<le> REPORT_BATCH_SIZE3"
        using queued [OF k] queued [OF h] k h len new(1) full
        by (auto simp add: nth_list_update)
    qed (simp_all add: len nm)
  qed
qed

lemma corsaro_report_process_packet_inv:
  assumes "proc_inv tracker_count sys"
    and "corsaro_report_process_packet max_tags tracker_count sys extracted tgs = Some sys'"
  shows "proc_inv tracker_count sys'"
  using assms
  by (auto simp add: corsaro_report_process_packet_def
      split: option.splits prod.splits dest: update_metrics_for_address_inv)

lemma send_loop_inv:
  assumes "proc_inv tracker_count sys"
    and "msgtype msg = CORSARO_IP_MESSAGE_HALT \<or> msgtype msg = CORSARO_IP_MESSAGE_INTERVAL"
    and "update msg = []"
  shows "proc_inv tracker_count (foldl (send_pending_then msg) sys [0..<tracker_count])"
proof -
  obtain queues state where sys: "sys = (queues, state)"
    by (cases sys)
  have len: "length queues = tracker_count" "length (nextmsg state) = tracker_count"
    using assms(1) by (simp_all add: proc_inv_def sys)
  note loop = send_loop [OF len order_refl, of msg]
  show ?thesis
    using assms loop
    unfolding proc_inv_def sys
    by (auto simp add: REPORT_BATCH_SIZE3_def)
qed

lemma corsaro_report_end_interval_inv:
  assumes "proc_inv tracker_count sys"
  shows "proc_inv tracker_count (corsaro_report_end_interval tracker_count sys)"
proof -
  define msg where
    "msg = \<lparr>msgtype = CORSARO_IP_MESSAGE_INTERVAL, sender = threadid (snd sys),
             timestamp = current_interval (snd sys), update = []\<rparr>"
  have "proc_inv tracker_count (foldl (send_pending_then msg) sys [0..<tracker_count])"
    using assms by (rule send_loop_inv) (simp_all add: msg_def)
  then show ?thesis
    by (simp add: corsaro_report_end_interval_def Let_def msg_def proc_inv_def)
qed

lemma corsaro_report_halt_processing_inv:
  assumes "proc_inv tracker_count sys"
  shows "proc_inv tracker_count (corsaro_report_halt_processing tracker_count sys)"
proof -
  define msg where
    "msg = \<lparr>msgtype = CORSARO_IP_MESSAGE_HALT, sender = threadid (snd sys),
             timestamp = 0, update = []\<rparr>"
  have "proc_inv tracker_count (foldl (send_pending_then msg) sys [0..<tracker_count])"
    using assms by (rule send_loop_inv) (simp_all add: msg_def)
  then show ?thesis
    by (simp add: corsaro_report_halt_processing_def Let_def msg_def)
qed

lemma processor_run_inv:
  assumes "proc_inv tracker_count sys"
    and "processor_run max_tags tracker_count sys calls = Some sys'"
  shows "proc_inv tracker_count sys'"
  using assms
proof (induction calls arbitrary: sys)
  case Nil
  then show ?case
    by simp
next
  case (Cons call calls)
  show ?case
  proof (cases call)
    case (Process_packet extracted tgs)
    then obtain sys1 where
      one: "corsaro_report_process_packet max_tags tracker_count sys extracted tgs = Some sys1"
      and rest: "processor_run max_tags tracker_count sys1 calls = Some sys'"
      using Cons.prems(2) by (auto split: option.splits)
    show ?thesis
      using Cons.IH [OF corsaro_report_process_packet_inv [OF Cons.prems(1) one] rest] .
  next
    case (Start_interval int_start)
    have "proc_inv tracker_count (fst sys, corsaro_report_start_interval (snd sys) int_start)"
      using Cons.prems(1) by (simp add: proc_inv_def corsaro_report_start_interval_def)
    then show ?thesis
      using Cons.IH Cons.prems(2) Start_interval by simp
  next
    case End_interval
    then show ?thesis
      using Cons.IH [OF corsaro_report_end_interval_inv [OF Cons.prems(1)]] Cons.prems(2)
      by simp
  next
    case Halt_processing
    then show ?thesis
      using corsaro_report_halt_processing_inv [OF Cons.prems(1)] Cons.prems(2) by simp
  qed
qed

lemma corsaro_report_init_processing_inv:
  "proc_inv tracker_count
     (replicate tracker_count [], corsaro_report_init_processing tracker_count tid)"
  by (simp add: proc_inv_def corsaro_report_init_processing_def CORSARO_IP_MESSAGE_HALT_def
      REPORT_BATCH_SIZE3_def)

text \<open>
  A flush queues the pending message as it is. Its type is the one that
  \<^verbatim>\<open>corsaro_report_init_processing\<close> left, 0, which is \<^verbatim>\<open>CORSARO_IP_MESSAGE_HALT\<close>: the file
  assigns \<^verbatim>\<open>msgtype\<close> in halt and interval-end messages only. A tracker that takes the
  batch from its queue therefore reads a halt request, and the updates of the batch are
  not applied.
\<close>

lemma flushed_batch_read_as_halt:
  "map_option
     (\<lambda>sys. map (\<lambda>m. (msgtype m = CORSARO_IP_MESSAGE_HALT, length (update m),
                        map_option (\<lambda>track. (haltphase track, currentresult track))
                          (handle_message (init_iptracker 1) m)))
               (fst sys ! 1))
     (update_metrics_for_address 10 4
        ([[], [], [], []],
         (corsaro_report_init_processing 4 0)
           \<lparr>nextmsg := (nextmsg (corsaro_report_init_processing 4 0))
              [1 := (nextmsg (corsaro_report_init_processing 4 0) ! 1)
                 \<lparr>update := replicate 499 \<lparr>body_ipaddr = 0x01000001, issrc = 1, tags = [0], body_size = 40\<rparr>\<rparr>]\<rparr>)
        0x01000002 1 40 None)
     = Some [(True, 500, Some (2, []))]"
  by (simp add: update_metrics_for_address_def process_tags_def process_single_tag_def
      GEN_METRICID3_def REPORT_BATCH_SIZE3_def corsaro_report_init_processing_def Let_def
      drop_bit_eq_div handle_message_def init_iptracker_def CORSARO_IP_MESSAGE_HALT_def)

text \<open>
  Claim C5 fails in the code: no update message reaches the update branch of the tracker
  loop. The messages that a processing thread fills with updates are allocated with
  \<^verbatim>\<open>calloc\<close> and their \<^verbatim>\<open>msgtype\<close> is never assigned, so they carry 0, the value of
  \<^verbatim>\<open>CORSARO_IP_MESSAGE_HALT\<close>; the enum has no value for an update. Whatever calls a
  processing thread receives, every message on a tracker queue has the type of a halt or
  of an interval end, and one that carries updates has the type of a halt: the tracker
  takes it for a halt request, changes \<^verbatim>\<open>haltphase\<close> and applies none of its updates, to
  the maps of the current interval or of the next.
\<close>

theorem update_batch_read_as_halt:
  assumes "processor_run max_tags tracker_count
             (replicate tracker_count [], corsaro_report_init_processing tracker_count tid) calls
             = Some (queues, state)"
    and "k < tracker_count" and "m \<in> set (queues ! k)"
  shows "(msgtype m = CORSARO_IP_MESSAGE_HALT \<or> msgtype m = CORSARO_IP_MESSAGE_INTERVAL) \<and>
         (update m \<noteq> [] \<longrightarrow>
            msgtype m = CORSARO_IP_MESSAGE_HALT \<and>
            handle_message track m
              = Some (track\<lparr>haltphase := (if length (outstanding track) = 0 then 2 else 1)\<rparr>))"
proof -
  have "proc_inv tracker_count (queues, state)"
    using corsaro_report_init_processing_inv assms(1) by (rule processor_run_inv)
  then have ty: "msgtype m = CORSARO_IP_MESSAGE_HALT \<or> msgtype m = CORSARO_IP_MESSAGE_INTERVAL"
    and upd: "update m \<noteq> [] \<longrightarrow> msgtype m = CORSARO_IP_MESSAGE_HALT"
    using assms(2,3) by (simp_all add: proc_inv_def)
  have "handle_message track m
          = Some (track\<lparr>haltphase := (if length (outstanding track) = 0 then 2 else 1)\<rparr>)"
    if "msgtype m = CORSARO_IP_MESSAGE_HALT"
    using that by (simp add: handle_message_def)
  then show ?thesis
    using ty upd by blast
qed

text \<open>
  One packet from 1.0.0.2 to 2.0.0.3 of 40 bytes, then the end of the interval, in thread 0
  with four trackers. Tracker 1 receives the update for the source address in a message
  of type 0 and halts on it with an empty tally; applied as an update, the message would
  have put one packet of 40 bytes and one source address in the current tally.
\<close>

theorem update_batch_read_as_halt_witness:
  "map_option fst
     (processor_run 10 4 (replicate 4 [], corsaro_report_init_processing 4 0)
        [Process_packet (Some (0x01000002, 0x02000003, 40)) None, End_interval])
     = Some [[\<lparr>msgtype = 1, sender = 0, timestamp = 0, update = []\<rparr>],
             [\<lparr>msgtype = 0, sender = 0, timestamp = 0,
               update = [\<lparr>body_ipaddr = 0x01000002, issrc = 1, tags = [0], body_size = 40\<rparr>]\<rparr>,
              \<lparr>msgtype = 1, sender = 0, timestamp = 0, update = []\<rparr>],
             [\<lparr>msgtype = 0, sender = 0, timestamp = 0,
               update = [\<lparr>body_ipaddr = 0x02000003, issrc = 0, tags = [0], body_size = 0\<rparr>]\<rparr>,
              \<lparr>msgtype = 1, sender = 0, timestamp = 0, update = []\<rparr>],
             [\<lparr>msgtype = 1, sender = 0, timestamp = 0, update = []\<rparr>]]
   \<and> handle_message (init_iptracker 1)
         \<lparr>msgtype = 0, sender = 0, timestamp = 0,
          update = [\<lparr>body_ipaddr = 0x01000002, issrc = 1, tags = [0], body_size = 40\<rparr>]\<rparr>
       = Some ((init_iptracker 1)\<lparr>haltphase := 2\<rparr>)
   \<and> map_option (\<lambda>track. map (\<lambda>(k, m). (k, packets m, bytes m, srcips m)) (currentresult track))
         (process_update (init_iptracker 1) 0
            [\<lparr>body_ipaddr = 0x01000002, issrc = 1, tags = [0], body_size = 40\<rparr>])
       = Some [(0, 1, 40, 1)]"
proof -
  let ?int = "\<lparr>msgtype = 1, sender = 0, timestamp = 0, update = []\<rparr> :: corsaro_report_ip_message_t"
  let ?empty = "\<lparr>msgtype = 0, sender = 0, timestamp = 0, update = []\<rparr> :: corsaro_report_ip_message_t"
  let ?src = "\<lparr>msgtype = 0, sender = 0, timestamp = 0,
               update = [\<lparr>body_ipaddr = 0x01000002, issrc = 1, tags = [0], body_size = 40\<rparr>]\<rparr>"
  let ?dst = "\<lparr>msgtype = 0, sender = 0, timestamp = 0,
               update = [\<lparr>body_ipaddr = 0x02000003, issrc = 0, tags = [0], body_size = 0\<rparr>]\<rparr>"
  let ?queues = "[[?int], [?src, ?int], [?dst, ?int], [?int]]"
  let ?state = "\<lparr>nextmsg = [?empty, ?empty, ?empty, ?empty], threadid = 0,
                 current_interval = 0, queueblocks = 0\<rparr>"
  have u4: "[0..<4] = [0, 1, 2, 3]"
    by (simp add: upt_rec)
  let ?pend1 = "\<lparr>nextmsg = [?empty, ?src, ?empty, ?empty], threadid = 0,
                 current_interval = 0, queueblocks = 0\<rparr>"
  let ?pend2 = "\<lparr>nextmsg = [?empty, ?src, ?dst, ?empty], threadid = 0,
                 current_interval = 0, queueblocks = 0\<rparr>"
  have init: "(replicate 4 [], corsaro_report_init_processing 4 0)
                = ([[], [], [], []], ?state)"
    by (simp add: corsaro_report_init_processing_def numeral_eq_Suc)
  have src: "update_metrics_for_address 10 4 ([[], [], [], []], ?state) 0x01000002 1 40 None
               = Some ([[], [], [], []], ?pend1)"
    by (simp add: update_metrics_for_address_def process_tags_def process_single_tag_def
        GEN_METRICID3_def REPORT_BATCH_SIZE3_def Let_def drop_bit_eq_div)
  have dst: "update_metrics_for_address 10 4 ([[], [], [], []], ?pend1) 0x02000003 0 40 None
               = Some ([[], [], [], []], ?pend2)"
    by (simp add: update_metrics_for_address_def process_tags_def process_single_tag_def
        GEN_METRICID3_def REPORT_BATCH_SIZE3_def Let_def drop_bit_eq_div)
  have packet: "corsaro_report_process_packet 10 4 ([[], [], [], []], ?state)
                  (Some (0x01000002, 0x02000003, 40)) None
                = Some ([[], [], [], []], ?pend2)"
    by (simp add: corsaro_report_process_packet_def src dst)
  have ended: "corsaro_report_end_interval 4 ([[], [], [], []], ?pend2) = (?queues, ?state)"
    by (simp add: corsaro_report_end_interval_def send_pending_then_def
        CORSARO_IP_MESSAGE_INTERVAL_def Let_def u4)
  have run: "processor_run 10 4 (replicate 4 [], corsaro_report_init_processing 4 0)
               [Process_packet (Some (0x01000002, 0x02000003, 40)) None, End_interval]
             = Some (?queues, ?state)"
    unfolding init by (simp add: packet ended)
  have k: "(1 :: nat) < 4"
    by simp
  have m: "?src \<in> set (?queues ! 1)"
    by simp
  have "handle_message (init_iptracker 1) ?src = Some ((init_iptracker 1)\<lparr>haltphase := 2\<rparr>)"
    using update_batch_read_as_halt [OF run k m, of "init_iptracker 1"]
    by (simp add: init_iptracker_def)
  moreover have "map_option (\<lambda>track. map (\<lambda>(k, m). (k, packets m, bytes m, srcips m)) (currentresult track))
         (process_update (init_iptracker 1) 0
            [\<lparr>body_ipaddr = 0x01000002, issrc = 1, tags = [0], body_size = 40\<rparr>])
       = Some [(0, 1, 40, 1)]"
    by (simp add: init_iptracker_def process_msg_body_def use_next_maps_def
        apply_msg_body_def update_iphash_def update_knownip_metric_def
        update_metric_array_def mark_array_slot_def METRIC_ARRAY_SIZE_def Let_def)
  ultimately show ?thesis
    using run by simp
qed

end
